theory Spec2Isabelle
  imports Complex_Main
begin

section \<open>Tree model: PhyloNode\<close>

text \<open>
  \<^verbatim>\<open>tree_compare.py\<close> works on \<^verbatim>\<open>PhyloNode\<close> objects of the PyCogent library
  (\<^verbatim>\<open>cogent.core.tree\<close>). A node has a \<^verbatim>\<open>Name\<close> (a string, or \<^verbatim>\<open>None\<close> when the tree
  description gave none), a list of \<^verbatim>\<open>Children\<close> (empty for a tip), and, once
  \<^verbatim>\<open>setup_master_tree\<close> has run, an attribute \<^verbatim>\<open>bootstrap_support\<close>. The attribute is
  an int while the comparisons run (0, then incremented) and the quotient of the true
  division (\<^verbatim>\<open>from __future__ import division\<close>) at the end; it is modelled as an
  optional rational, \<open>None\<close> standing for "no such attribute". The quotients the
  program computes are \<open>k / n\<close> with \<open>k\<close> and \<open>n\<close> small integers, and the rational
  is their exact value.
\<close>

datatype node =
  Node (Name: "string option") (support: "rat option") (Children: "node list")

text \<open>Attribute assignment: \<^verbatim>\<open>node.Name = v\<close> and \<^verbatim>\<open>node.bootstrap_support = v\<close>.\<close>

fun set_Name :: "string option \<Rightarrow> node \<Rightarrow> node" where
  "set_Name v (Node nm bs cs) = Node v bs cs"

fun set_support :: "rat option \<Rightarrow> node \<Rightarrow> node" where
  "set_support v (Node nm bs cs) = Node nm v cs"

text \<open>
  Nodes are objects that the program mutates in place while it iterates over the tree.
  A node of a tree is identified by its position: the list of child indices that leads
  from the root to it. \<open>node_at\<close> reads the node at a position and \<open>update_at\<close>
  replaces it by its image under \<open>f\<close>.
\<close>

fun node_at :: "node \<Rightarrow> nat list \<Rightarrow> node" where
  "node_at t [] = t"
| "node_at t (i # p) = node_at (Children t ! i) p"

fun update_at :: "nat list \<Rightarrow> (node \<Rightarrow> node) \<Rightarrow> node \<Rightarrow> node" where
  "update_at [] f t = f t"
| "update_at (i # p) f t =
     Node (Name t) (support t) ((Children t)[i := update_at p f (Children t ! i)])"

text \<open>
  Modelled from the spec: \<^verbatim>\<open>PhyloNode.traverse()\<close> of \<^verbatim>\<open>cogent.core.tree\<close> is not among
  the sources. Section 4.1 of the specification asks for a depth-first traversal; the
  library's default is preorder (a node before its descendants, children from left to
  right). \<open>paths\<close> lists the positions of all nodes in that order.
\<close>

fun paths :: "node \<Rightarrow> nat list list"
  and paths_from :: "nat \<Rightarrow> node list \<Rightarrow> nat list list" where
  "paths (Node nm bs cs) = [] # paths_from 0 cs"
| "paths_from i [] = []"
| "paths_from i (c # cs) = map ((#) i) (paths c) @ paths_from (Suc i) cs"

text \<open>
  Modelled from the spec: \<^verbatim>\<open>PhyloNode.iterNontips(include_self=True)\<close> is not among the
  sources. It yields, in traversal order, the nodes that have children, the root
  included when it has children (section 4.1: "internal nodes including the root").
\<close>

definition iterNontips :: "node \<Rightarrow> nat list list" where
  "iterNontips t = filter (\<lambda>p. Children (node_at t p) \<noteq> []) (paths t)"

text \<open>
  Modelled from the spec: \<^verbatim>\<open>PhyloNode.getTipNames()\<close> is not among the sources. It
  returns the names of the tips in the subtree of the node (section 4.3: "set of leaf
  labels in that node's subtree"); a tip is its own subtree.
\<close>

fun getTipNames :: "node \<Rightarrow> string option list" where
  "getTipNames (Node nm bs cs) =
     (if cs = [] then [nm] else concat (map getTipNames cs))"

text \<open>
  Modelled from the spec: \<^verbatim>\<open>PhyloNode.getNodeNames()\<close> is not among the sources. It
  returns the names of all nodes of the tree, tips and internal nodes (section 4.2:
  "collect all node labels (leaves + internals) across the whole tree"), in traversal
  order.
\<close>

fun getNodeNames :: "node \<Rightarrow> string option list" where
  "getNodeNames (Node nm bs cs) = nm # concat (map getNodeNames cs)"

section \<open>Errors\<close>

text \<open>
  The exceptions the three functions can raise: the two \<^verbatim>\<open>ValueError\<close>s they raise
  themselves, with their messages, the \<^verbatim>\<open>ZeroDivisionError\<close> of a division by
  \<^verbatim>\<open>len(trees) = 0\<close>, and the \<^verbatim>\<open>AttributeError\<close> of reading \<^verbatim>\<open>bootstrap_support\<close> on a
  node that has no such attribute.
\<close>

datatype error = ValueError string | ZeroDivisionError | AttributeError

definition nonunique_msg :: string where
  "nonunique_msg = ''can't setup tree, nonunique node names''"

definition mismatch_msg :: string where
  "mismatch_msg =
     ''different number of tips in subsampled_tree and master.'' @ [CHR 0x0A] @
     ''typically some sapmples with few sequences were skipped in'' @
     '' the support trees.  remove offending samples from the master'' @
     '' tree, and try again''"

section \<open>setup_master_tree\<close>

text \<open>\<^verbatim>\<open>str(i)\<close> for a counter \<open>i \<ge> 0\<close>: its decimal digits.\<close>

definition digit :: "nat \<Rightarrow> char" where
  "digit d = char_of (48 + d)"

fun str :: "nat \<Rightarrow> string" where
  "str n = (if n < 10 then [digit n] else str (n div 10) @ [digit (n mod 10)])"

declare str.simps [simp del]

text \<open>
  The test \<^verbatim>\<open>getattr(node, 'Name', None) == None or getattr(node, 'Name', None) == ""\<close>.
\<close>

definition unnamed :: "node \<Rightarrow> bool" where
  "unnamed n \<longleftrightarrow> Name n = None \<or> Name n = Some ''''"

text \<open>
  The body of the loop of \<^verbatim>\<open>setup_master_tree\<close>, at the internal node at position
  \<open>p\<close>, with the counter \<open>i\<close> and the tree as the state.
\<close>

definition setup_node :: "nat list \<Rightarrow> nat \<Rightarrow> node \<Rightarrow> nat \<times> node" where
  "setup_node p i m =
     (let m1 = update_at p (set_support (Some 0)) m in
      if unnamed (node_at m1 p)
      then (i + 1, update_at p (set_Name (Some (''node'' @ str i))) m1)
      else (i, m1))"

text \<open>
  The loop over \<^verbatim>\<open>master.iterNontips(include_self=True)\<close>. The body assigns attributes
  only, so the positions still to visit are those of the tree the loop started on.
\<close>

fun setup_loop :: "nat list list \<Rightarrow> nat \<Rightarrow> node \<Rightarrow> nat \<times> node" where
  "setup_loop [] i m = (i, m)"
| "setup_loop (p # ps) i m =
     (case setup_node p i m of (i', m') \<Rightarrow> setup_loop ps i' m')"

text \<open>
  \<^verbatim>\<open>setup_master_tree(master)\<close>: the tree after the call, and the exception raised, if
  any. The tree is mutated before the check of the names, so it is returned changed
  also when the check fails.
\<close>

definition setup_master_tree :: "node \<Rightarrow> node \<times> error option" where
  "setup_master_tree master =
     (let (i, m) = setup_loop (iterNontips master) 0 master in
      if card (set (getNodeNames m)) \<noteq> length (getNodeNames m)
      then (m, Some (ValueError nonunique_msg))
      else (m, None))"

section \<open>compare\<close>

text \<open>
  The loop of \<^verbatim>\<open>compare\<close> over the internal nodes of the master tree. \<open>names\<close> is
  \<^verbatim>\<open>subsampled_tree_nodes_names\<close>. \<^verbatim>\<open>master_node.bootstrap_support += 1\<close> reads the
  attribute first, which raises when the node has none.
\<close>

fun compare_loop :: "string option list list \<Rightarrow> nat list list \<Rightarrow> node \<Rightarrow> node \<times> error option" where
  "compare_loop names [] m = (m, None)"
| "compare_loop names (p # ps) m =
     (if set (getTipNames (node_at m p)) \<in> set (map set names)
      then (case support (node_at m p) of
              None \<Rightarrow> (m, Some AttributeError)
            | Some b \<Rightarrow> compare_loop names ps (update_at p (set_support (Some (b + 1))) m))
      else compare_loop names ps m)"

definition compare :: "node \<Rightarrow> node \<Rightarrow> node \<times> error option" where
  "compare master subsampled_tree =
     (if set (getTipNames master) \<noteq> set (getTipNames subsampled_tree)
      then (master, Some (ValueError mismatch_msg))
      else
        let subsampled_tree_nodes_names =
              map (\<lambda>p. getTipNames (node_at subsampled_tree p)) (iterNontips subsampled_tree)
        in compare_loop subsampled_tree_nodes_names (iterNontips master) master)"

section \<open>bootstrap_support\<close>

text \<open>The loop \<^verbatim>\<open>for sub_tree in trees: compare(master_tree, sub_tree)\<close>; an exception ends it.\<close>

fun compare_all :: "node \<Rightarrow> node list \<Rightarrow> node \<times> error option" where
  "compare_all m [] = (m, None)"
| "compare_all m (t # ts) =
     (case compare m t of
        (m', Some e) \<Rightarrow> (m', Some e)
      | (m', None) \<Rightarrow> compare_all m' ts)"

text \<open>
  The last loop of \<^verbatim>\<open>bootstrap_support\<close>: each internal node's counter is divided by
  \<^verbatim>\<open>num_trees\<close> and stored in the dictionary under the node's name.
\<close>

type_synonym supports = "string option \<rightharpoonup> rat"

fun support_loop :: "nat \<Rightarrow> nat list list \<Rightarrow> node \<Rightarrow> supports \<Rightarrow> node \<times> (error + supports)" where
  "support_loop num_trees [] m d = (m, Inr d)"
| "support_loop num_trees (p # ps) m d =
     (case support (node_at m p) of
        None \<Rightarrow> (m, Inl AttributeError)
      | Some b \<Rightarrow>
          if num_trees = 0 then (m, Inl ZeroDivisionError)
          else
            let m' = update_at p (set_support (Some (b / of_nat num_trees))) m
            in support_loop num_trees ps m'
                 (d(Name (node_at m' p) \<mapsto> b / of_nat num_trees)))"

text \<open>
  \<^verbatim>\<open>bootstrap_support(master_tree, trees)\<close>: the master tree after the call, and either
  the exception raised or the dictionary returned (the returned tree is the master tree
  object itself).
\<close>

definition bootstrap_support :: "node \<Rightarrow> node list \<Rightarrow> node \<times> (error + supports)" where
  "bootstrap_support master_tree trees =
     (case setup_master_tree master_tree of
        (m0, Some e) \<Rightarrow> (m0, Inl e)
      | (m0, None) \<Rightarrow>
          (case compare_all m0 trees of
             (m1, Some e) \<Rightarrow> (m1, Inl e)
           | (m1, None) \<Rightarrow> support_loop (length trees) (iterNontips m1) m1 Map.empty))"

section \<open>The shape of a tree\<close>

text \<open>
  What no loop of the program changes: the children lists and the names of the tips.
  \<open>skel\<close> erases the rest (the names of internal nodes and every
  \<^verbatim>\<open>bootstrap_support\<close>), so two states of a tree with the same \<open>skel\<close> have the
  same positions, the same internal nodes and the same tip names below every node.
\<close>

fun skel :: "node \<Rightarrow> node" where
  "skel (Node nm bs cs) = Node (if cs = [] then nm else None) None (map skel cs)"

text \<open>
  The test of \<^verbatim>\<open>compare\<close> for the internal node of the master tree at position \<open>p\<close>:
  its set of tip names is the set of tip names of some internal node of the tree \<open>t\<close>.
\<close>

definition supported_by :: "node \<Rightarrow> nat list \<Rightarrow> node \<Rightarrow> bool" where
  "supported_by m p t \<longleftrightarrow>
     set (getTipNames (node_at m p)) \<in>
       set (map set (map (\<lambda>q. getTipNames (node_at t q)) (iterNontips t)))"

text \<open>
  Every internal node has the attribute \<^verbatim>\<open>bootstrap_support\<close>: the state of the master tree
  once \<^verbatim>\<open>setup_master_tree\<close> has run.
\<close>

definition initialised :: "node \<Rightarrow> bool" where
  "initialised m \<longleftrightarrow> (\<forall>p \<in> set (iterNontips m). support (node_at m p) \<noteq> None)"

section \<open>The trees of the specification's scenarios\<close>

text \<open>
  Modelled from the spec: the parser \<^verbatim>\<open>DndParser\<close> is not among the sources (section 1
  puts parsing out of scope). The trees below are the node structures of the bracket
  notations the specification names: a tip carries its label, an internal node the label
  written after its closing bracket or \<open>None\<close>, and no node has a
  \<^verbatim>\<open>bootstrap_support\<close> attribute yet.
\<close>

definition tip :: "string \<Rightarrow> node" where
  "tip s = Node (Some s) None []"

text \<open>\<^verbatim>\<open>((A,B)n1,(C,D)n2);\<close>, \<^verbatim>\<open>((A,B),(C,D));\<close> and \<^verbatim>\<open>((A,C),(B,D));\<close>\<close>

definition ex_master :: node where
  "ex_master =
     Node None None
       [Node (Some ''n1'') None [tip ''A'', tip ''B''],
        Node (Some ''n2'') None [tip ''C'', tip ''D'']]"

definition ex_tree1 :: node where
  "ex_tree1 =
     Node None None
       [Node None None [tip ''A'', tip ''B''], Node None None [tip ''C'', tip ''D'']]"

definition ex_tree2 :: node where
  "ex_tree2 =
     Node None None
       [Node None None [tip ''A'', tip ''C''], Node None None [tip ''B'', tip ''D'']]"

text \<open>\<^verbatim>\<open>((A,B),(C,E));\<close> and \<^verbatim>\<open>((A,B),(C,F));\<close>: trees whose leaves are not those of the master.\<close>

definition ex_tree_E :: node where
  "ex_tree_E =
     Node None None
       [Node None None [tip ''A'', tip ''B''], Node None None [tip ''C'', tip ''E'']]"

definition ex_tree_F :: node where
  "ex_tree_F =
     Node None None
       [Node None None [tip ''A'', tip ''B''], Node None None [tip ''C'', tip ''F'']]"

text \<open>
  \<^verbatim>\<open>(x);\<close>, an internal root over one tip, and a tree that is one tip named \<^verbatim>\<open>x\<close>: the
  object \<^verbatim>\<open>PhyloNode(Name='x')\<close>, which has no children.
\<close>

definition ex_single_master :: node where
  "ex_single_master = Node None None [tip ''x'']"

definition ex_single_tip :: node where
  "ex_single_tip = tip ''x''"

text \<open>
  \<^verbatim>\<open>((A,B)node0,C);\<close>: an internal node already carries the name that
  \<^verbatim>\<open>setup_master_tree\<close> gives to the unnamed root.
\<close>

definition ex_clash :: node where
  "ex_clash = Node None None [Node (Some ''node0'') None [tip ''A'', tip ''B''], tip ''C'']"

text \<open>\<^verbatim>\<open>((A,B),C);\<close>: a comparison tree with the leaves of \<^verbatim>\<open>((A,B)node0,C);\<close>.\<close>

definition ex_clash_tree :: node where
  "ex_clash_tree = Node None None [Node None None [tip ''A'', tip ''B''], tip ''C'']"

section \<open>Positions in a tree\<close>

lemma paths_from_iff:
  "q \<in> set (paths_from i cs) \<longleftrightarrow>
     (\<exists>k p. q = (i + k) # p \<and> k < length cs \<and> p \<in> set (paths (cs ! k)))"
proof (induction cs arbitrary: i)
  case Nil
  show ?case by simp
next
  case (Cons c cs)
  show ?case
  proof
    assume "q \<in> set (paths_from i (c # cs))"
    then consider "q \<in> (#) i ` set (paths c)" | "q \<in> set (paths_from (Suc i) cs)"
      by auto
    then show "\<exists>k p. q = (i + k) # p \<and> k < length (c # cs) \<and> p \<in> set (paths ((c # cs) ! k))"
    proof cases
      case 1
      then obtain p where "q = i # p" "p \<in> set (paths c)" by auto
      then have "q = (i + 0) # p \<and> 0 < length (c # cs) \<and> p \<in> set (paths ((c # cs) ! 0))"
        by simp
      then show ?thesis by blast
    next
      case 2
      then obtain k p where "q = (Suc i + k) # p" "k < length cs" "p \<in> set (paths (cs ! k))"
        using Cons.IH by blast
      then have "q = (i + Suc k) # p \<and> Suc k < length (c # cs) \<and> p \<in> set (paths ((c # cs) ! Suc k))"
        by simp
      then show ?thesis by blast
    qed
  next
    assume "\<exists>k p. q = (i + k) # p \<and> k < length (c # cs) \<and> p \<in> set (paths ((c # cs) ! k))"
    then obtain k p where kp: "q = (i + k) # p" "k < length (c # cs)" "p \<in> set (paths ((c # cs) ! k))"
      by blast
    show "q \<in> set (paths_from i (c # cs))"
    proof (cases k)
      case 0
      with kp show ?thesis by simp
    next
      case (Suc k')
      with kp have "q = (Suc i + k') # p \<and> k' < length cs \<and> p \<in> set (paths (cs ! k'))"
        by simp
      then have "q \<in> set (paths_from (Suc i) cs)"
        using Cons.IH by blast
      then show ?thesis by simp
    qed
  qed
qed

lemma Nil_in_paths [simp]: "[] \<in> set (paths t)"
  by (cases t) simp

lemma Nil_notin_paths_from [simp]: "[] \<notin> set (paths_from i cs)"
  by (simp add: paths_from_iff)

lemma Cons_in_paths [simp]:
  "(i # p) \<in> set (paths t) \<longleftrightarrow> i < length (Children t) \<and> p \<in> set (paths (Children t ! i))"
  by (cases t) (simp add: paths_from_iff)

lemma distinct_paths_aux:
  "distinct (paths t)" "distinct (paths_from i cs)"
proof (induction t and i cs rule: paths_paths_from.induct)
  case (1 nm bs cs)
  then show ?case by simp
next
  case (2 i)
  show ?case by simp
next
  case (3 i c cs)
  have "set (map ((#) i) (paths c)) \<inter> set (paths_from (Suc i) cs) = {}"
    by (auto simp: paths_from_iff)
  with 3 show ?case by (simp add: distinct_map)
qed

lemma distinct_paths: "distinct (paths t)"
  by (rule distinct_paths_aux)

lemma distinct_iterNontips: "distinct (iterNontips t)"
  by (simp add: iterNontips_def distinct_paths)

lemma iterNontips_iff:
  "p \<in> set (iterNontips t) \<longleftrightarrow> p \<in> set (paths t) \<and> Children (node_at t p) \<noteq> []"
  by (simp add: iterNontips_def)

subsection \<open>Reading and updating at a position\<close>

lemma Children_update_at:
  assumes "\<And>n. Children (f n) = Children n"
  shows "length (Children (update_at p f t)) = length (Children t)"
  by (cases p) (simp_all add: assms)

lemma node_at_update_at_same:
  "p \<in> set (paths t) \<Longrightarrow> node_at (update_at p f t) p = f (node_at t p)"
  by (induction p arbitrary: t) simp_all

lemma node_at_update_at_other:
  assumes f: "\<And>n. Children (f n) = Children n"
  shows "p \<in> set (paths t) \<Longrightarrow> q \<in> set (paths t) \<Longrightarrow> q \<noteq> p \<Longrightarrow>
    Name (node_at (update_at p f t) q) = Name (node_at t q) \<and>
    support (node_at (update_at p f t) q) = support (node_at t q)"
proof (induction p arbitrary: t q)
  case Nil
  then obtain j q' where "q = j # q'" by (cases q) auto
  then show ?case by (simp add: f)
next
  case (Cons i p)
  show ?case
  proof (cases q)
    case Nil
    then show ?thesis by simp
  next
    case (Cons j q')
    show ?thesis
    proof (cases "j = i")
      case True
      with Cons.prems Cons have "p \<in> set (paths (Children t ! i))" "q' \<in> set (paths (Children t ! i))" "q' \<noteq> p"
        "i < length (Children t)"
        by auto
      with Cons.IH[of "Children t ! i" q'] True Cons show ?thesis by simp
    next
      case False
      with Cons show ?thesis by simp
    qed
  qed
qed

section \<open>The shape is what the loops preserve\<close>

lemma paths_skel_aux:
  "paths (skel t) = paths t" "paths_from i (map skel cs) = paths_from i cs"
  by (induction t and i cs rule: paths_paths_from.induct) simp_all

lemma Children_skel [simp]: "Children (skel t) = map skel (Children t)"
  by (cases t) simp

lemma node_at_skel: "p \<in> set (paths t) \<Longrightarrow> node_at (skel t) p = skel (node_at t p)"
  by (induction p arbitrary: t) simp_all

lemma getTipNames_skel: "getTipNames (skel t) = getTipNames t"
proof (induction t)
  case (Node nm bs cs)
  have eq: "map (getTipNames \<circ> skel) cs = map getTipNames cs"
    using Node.IH by (intro map_cong) simp_all
  show ?case by (simp add: eq)
qed

lemma skel_set_support [simp]: "skel (set_support v n) = skel n"
  by (cases n) simp

lemma skel_set_Name [simp]: "Children n \<noteq> [] \<Longrightarrow> skel (set_Name v n) = skel n"
  by (cases n) simp

lemma skel_update_at:
  "p \<in> set (paths t) \<Longrightarrow> skel (f (node_at t p)) = skel (node_at t p) \<Longrightarrow>
   skel (update_at p f t) = skel t"
proof (induction p arbitrary: t)
  case Nil
  then show ?case by simp
next
  case (Cons i p)
  define cs where "cs = Children t"
  from Cons.prems have i: "i < length cs" and p: "p \<in> set (paths (cs ! i))"
    and f: "skel (f (node_at (cs ! i) p)) = skel (node_at (cs ! i) p)"
    by (simp_all add: cs_def)
  have "skel (update_at p f (cs ! i)) = skel (cs ! i)"
    using Cons.IH [OF p f] .
  then have eq: "map skel (cs[i := update_at p f (cs ! i)]) = map skel cs"
    using i by (simp add: map_update list_update_same_conv)
  show ?case
  proof (cases t)
    case (Node nm bs cs')
    with eq show ?thesis by (simp add: cs_def)
  qed
qed

subsection \<open>Trees of the same shape\<close>

lemma skel_paths: "skel m' = skel m \<Longrightarrow> paths m' = paths m"
  using paths_skel_aux(1) [of m'] paths_skel_aux(1) [of m] by simp

lemma skel_getTipNames: "skel m' = skel m \<Longrightarrow> getTipNames m' = getTipNames m"
  using getTipNames_skel [of m'] getTipNames_skel [of m] by simp

lemma skel_node_at:
  assumes "skel m' = skel m" "p \<in> set (paths m)"
  shows "skel (node_at m' p) = skel (node_at m p)"
proof -
  have p': "p \<in> set (paths m')"
    using assms skel_paths [OF assms(1)] by simp
  have "skel (node_at m' p) = node_at (skel m') p"
    using node_at_skel [OF p'] by (rule sym)
  also have "\<dots> = node_at (skel m) p"
    by (simp only: assms(1))
  also have "\<dots> = skel (node_at m p)"
    using assms(2) by (rule node_at_skel)
  finally show ?thesis .
qed

lemma skel_Children_Nil:
  assumes "skel n' = skel n"
  shows "Children n' = [] \<longleftrightarrow> Children n = []"
proof -
  have "length (Children (skel n')) = length (Children (skel n))"
    by (simp only: assms)
  then have "length (Children n') = length (Children n)"
    by simp
  then show ?thesis
    by (simp only: length_0_conv [symmetric])
qed

lemma skel_iterNontips: "skel m' = skel m \<Longrightarrow> iterNontips m' = iterNontips m"
proof -
  assume s: "skel m' = skel m"
  have "filter (\<lambda>p. Children (node_at m' p) \<noteq> []) (paths m) =
        filter (\<lambda>p. Children (node_at m p) \<noteq> []) (paths m)"
  proof (rule filter_cong [OF refl])
    fix p assume "p \<in> set (paths m)"
    then have "skel (node_at m' p) = skel (node_at m p)"
      using s by (rule skel_node_at [rotated])
    then have "(Children (node_at m' p) = []) = (Children (node_at m p) = [])"
      by (rule skel_Children_Nil)
    then show "(Children (node_at m' p) \<noteq> []) = (Children (node_at m p) \<noteq> [])"
      by (simp only:)
  qed
  then show ?thesis
    by (simp add: iterNontips_def skel_paths [OF s])
qed

lemma skel_getTipNames_at:
  "skel m' = skel m \<Longrightarrow> p \<in> set (paths m) \<Longrightarrow>
   getTipNames (node_at m' p) = getTipNames (node_at m p)"
  by (rule skel_getTipNames) (rule skel_node_at)

lemma skel_supported_by:
  "skel m' = skel m \<Longrightarrow> p \<in> set (paths m) \<Longrightarrow> supported_by m' p t = supported_by m p t"
  using skel_getTipNames_at [of m' m p] by (simp add: supported_by_def)

subsection \<open>One attribute assignment\<close>

lemma Children_set_support [simp]: "Children (set_support v n) = Children n"
  by (cases n) simp

lemma Children_set_Name [simp]: "Children (set_Name v n) = Children n"
  by (cases n) simp

lemma Name_set_support [simp]: "Name (set_support v n) = Name n"
  by (cases n) simp

lemma support_set_support [simp]: "support (set_support v n) = v"
  by (cases n) simp

lemma Name_set_Name [simp]: "Name (set_Name v n) = v"
  by (cases n) simp

lemma support_set_Name [simp]: "support (set_Name v n) = support n"
  by (cases n) simp

lemma Name_update_at_set_support:
  assumes "p \<in> set (paths t)" "q \<in> set (paths t)"
  shows "Name (node_at (update_at p (set_support v) t) q) = Name (node_at t q)"
proof (cases "q = p")
  case True
  then show ?thesis using assms by (simp add: node_at_update_at_same)
next
  case False
  show ?thesis
    using node_at_update_at_other [of "set_support v" p t q, OF Children_set_support assms False]
    by (rule conjunct1)
qed

lemma support_update_at_set_Name:
  assumes "p \<in> set (paths t)" "q \<in> set (paths t)"
  shows "support (node_at (update_at p (set_Name v) t) q) = support (node_at t q)"
proof (cases "q = p")
  case True
  then show ?thesis using assms by (simp add: node_at_update_at_same)
next
  case False
  show ?thesis
    using node_at_update_at_other [of "set_Name v" p t q, OF Children_set_Name assms False]
    by (rule conjunct2)
qed

section \<open>Properties of setup_master_tree\<close>

lemma iterNontips_paths: "p \<in> set (iterNontips t) \<Longrightarrow> p \<in> set (paths t)"
  by (simp add: iterNontips_def)

lemma iterNontips_Children: "p \<in> set (iterNontips t) \<Longrightarrow> Children (node_at t p) \<noteq> []"
  by (simp add: iterNontips_def)

lemma skel_update_set_support:
  "p \<in> set (paths t) \<Longrightarrow> skel (update_at p (set_support v) t) = skel t"
  by (rule skel_update_at) simp_all

lemma skel_update_set_Name:
  "p \<in> set (iterNontips t) \<Longrightarrow> skel (update_at p (set_Name v) t) = skel t"
  by (rule skel_update_at) (simp_all add: iterNontips_paths iterNontips_Children)

lemma unnamed_Name_cong: "Name n' = Name n \<Longrightarrow> unnamed n' = unnamed n"
  by (simp add: unnamed_def)

subsection \<open>The body of the loop\<close>

lemma setup_node_cases:
  assumes p: "p \<in> set (iterNontips m)"
  defines "m1 \<equiv> update_at p (set_support (Some 0)) m"
  shows "setup_node p i m =
    (if unnamed (node_at m p)
     then (i + 1, update_at p (set_Name (Some (''node'' @ str i))) m1)
     else (i, m1))"
proof -
  have "Name (node_at m1 p) = Name (node_at m p)"
    unfolding m1_def using p by (simp add: Name_update_at_set_support iterNontips_paths)
  then have "unnamed (node_at m1 p) = unnamed (node_at m p)"
    by (rule unnamed_Name_cong)
  then show ?thesis
    by (simp add: setup_node_def m1_def [symmetric])
qed

lemma setup_node_skel:
  assumes p: "p \<in> set (iterNontips m)"
  shows "skel (snd (setup_node p i m)) = skel m"
proof -
  define m1 where "m1 = update_at p (set_support (Some 0)) m"
  have s1: "skel m1 = skel m"
    unfolding m1_def using p by (simp add: skel_update_set_support iterNontips_paths)
  have p1: "p \<in> set (iterNontips m1)"
    using p skel_iterNontips [OF s1] by simp
  have "skel (update_at p (set_Name v) m1) = skel m" for v
    using skel_update_set_Name [OF p1] s1 by simp
  then show ?thesis
    using s1 by (simp add: setup_node_cases [OF p] m1_def [symmetric])
qed

lemma setup_node_fst:
  "p \<in> set (iterNontips m) \<Longrightarrow>
   fst (setup_node p i m) = (if unnamed (node_at m p) then i + 1 else i)"
  by (simp add: setup_node_cases)

lemma setup_node_same:
  assumes p: "p \<in> set (iterNontips m)"
  shows "support (node_at (snd (setup_node p i m)) p) = Some 0"
    and "Name (node_at (snd (setup_node p i m)) p) =
          (if unnamed (node_at m p) then Some (''node'' @ str i) else Name (node_at m p))"
proof -
  define m1 where "m1 = update_at p (set_support (Some 0)) m"
  have pm: "p \<in> set (paths m)" using p by (rule iterNontips_paths)
  have s1: "skel m1 = skel m"
    unfolding m1_def using pm by (simp add: skel_update_set_support)
  have p1: "p \<in> set (paths m1)"
    using pm skel_paths [OF s1] by simp
  have a: "support (node_at m1 p) = Some 0" "Name (node_at m1 p) = Name (node_at m p)"
    unfolding m1_def using pm by (simp_all add: node_at_update_at_same)
  have b: "support (node_at (update_at p (set_Name v) m1) p) = Some 0"
    "Name (node_at (update_at p (set_Name v) m1) p) = v" for v
    using p1 a by (simp_all add: node_at_update_at_same)
  show "support (node_at (snd (setup_node p i m)) p) = Some 0"
    using a b by (simp add: setup_node_cases [OF p] m1_def [symmetric])
  show "Name (node_at (snd (setup_node p i m)) p) =
          (if unnamed (node_at m p) then Some (''node'' @ str i) else Name (node_at m p))"
    using a b by (simp add: setup_node_cases [OF p] m1_def [symmetric])
qed

lemma setup_node_other:
  assumes p: "p \<in> set (iterNontips m)" and q: "q \<in> set (paths m)" and ne: "q \<noteq> p"
  shows "Name (node_at (snd (setup_node p i m)) q) = Name (node_at m q)"
    and "support (node_at (snd (setup_node p i m)) q) = support (node_at m q)"
proof -
  define m1 where "m1 = update_at p (set_support (Some 0)) m"
  have pm: "p \<in> set (paths m)" using p by (rule iterNontips_paths)
  have s1: "skel m1 = skel m"
    unfolding m1_def using pm by (simp add: skel_update_set_support)
  have p1: "p \<in> set (paths m1)" and q1: "q \<in> set (paths m1)"
    using pm q skel_paths [OF s1] by simp_all
  have a: "Name (node_at m1 q) = Name (node_at m q) \<and> support (node_at m1 q) = support (node_at m q)"
    unfolding m1_def
    by (rule node_at_update_at_other [OF Children_set_support pm q ne])
  have b: "Name (node_at (update_at p (set_Name v) m1) q) = Name (node_at m1 q) \<and>
           support (node_at (update_at p (set_Name v) m1) q) = support (node_at m1 q)" for v
    by (rule node_at_update_at_other [OF Children_set_Name p1 q1 ne])
  show "Name (node_at (snd (setup_node p i m)) q) = Name (node_at m q)"
    using a b by (simp add: setup_node_cases [OF p] m1_def [symmetric])
  show "support (node_at (snd (setup_node p i m)) q) = support (node_at m q)"
    using a b by (simp add: setup_node_cases [OF p] m1_def [symmetric])
qed

subsection \<open>The loop\<close>

lemma setup_loop_skel:
  "set ps \<subseteq> set (iterNontips m) \<Longrightarrow> skel (snd (setup_loop ps i m)) = skel m"
proof (induction ps arbitrary: i m)
  case Nil
  show ?case by simp
next
  case (Cons p ps)
  obtain i' m' where step: "setup_node p i m = (i', m')" by (cases "setup_node p i m")
  from Cons.prems have p: "p \<in> set (iterNontips m)" by simp
  have s: "skel m' = skel m"
    using setup_node_skel [OF p, of i] step by simp
  have "set ps \<subseteq> set (iterNontips m')"
    using Cons.prems skel_iterNontips [OF s] by simp
  then have "skel (snd (setup_loop ps i' m')) = skel m'"
    by (rule Cons.IH)
  then show ?case using step s by simp
qed

lemma setup_loop_other:
  "set ps \<subseteq> set (iterNontips m) \<Longrightarrow> q \<in> set (paths m) \<Longrightarrow> q \<notin> set ps \<Longrightarrow>
   Name (node_at (snd (setup_loop ps i m)) q) = Name (node_at m q) \<and>
   support (node_at (snd (setup_loop ps i m)) q) = support (node_at m q)"
proof (induction ps arbitrary: i m)
  case Nil
  show ?case by simp
next
  case (Cons p ps)
  obtain i' m' where step: "setup_node p i m = (i', m')" by (cases "setup_node p i m")
  from Cons.prems have p: "p \<in> set (iterNontips m)" and ne: "q \<noteq> p" and q: "q \<in> set (paths m)"
    and nin: "q \<notin> set ps"
    by auto
  have s: "skel m' = skel m"
    using setup_node_skel [OF p, of i] step by simp
  have sub: "set ps \<subseteq> set (iterNontips m')"
    using Cons.prems skel_iterNontips [OF s] by simp
  have q': "q \<in> set (paths m')"
    using q skel_paths [OF s] by simp
  have a: "Name (node_at m' q) = Name (node_at m q)" "support (node_at m' q) = support (node_at m q)"
    using setup_node_other [OF p q ne, of i] step by simp_all
  have "Name (node_at (snd (setup_loop ps i' m')) q) = Name (node_at m' q) \<and>
        support (node_at (snd (setup_loop ps i' m')) q) = support (node_at m' q)"
    using sub q' nin by (rule Cons.IH)
  then show ?case using step a by simp
qed

lemma setup_loop_support:
  "set ps \<subseteq> set (iterNontips m) \<Longrightarrow> distinct ps \<Longrightarrow> q \<in> set ps \<Longrightarrow>
   support (node_at (snd (setup_loop ps i m)) q) = Some 0"
proof (induction ps arbitrary: i m)
  case Nil
  then show ?case by simp
next
  case (Cons p ps)
  obtain i' m' where step: "setup_node p i m = (i', m')" by (cases "setup_node p i m")
  from Cons.prems have p: "p \<in> set (iterNontips m)" and d: "distinct ps" and pn: "p \<notin> set ps"
    by auto
  have s: "skel m' = skel m"
    using setup_node_skel [OF p, of i] step by simp
  have sub: "set ps \<subseteq> set (iterNontips m')"
    using Cons.prems skel_iterNontips [OF s] by simp
  show ?case
  proof (cases "q = p")
    case True
    have p': "p \<in> set (paths m')"
      using iterNontips_paths [OF p] skel_paths [OF s] by simp
    have "support (node_at (snd (setup_loop ps i' m')) p) = support (node_at m' p)"
      using setup_loop_other [OF sub p' pn] by simp
    also have "\<dots> = Some 0"
      using setup_node_same(1) [OF p, of i] step by simp
    finally show ?thesis using step True by simp
  next
    case False
    with Cons.prems have "q \<in> set ps" by simp
    then have "support (node_at (snd (setup_loop ps i' m')) q) = Some 0"
      using Cons.IH [OF sub d] by simp
    then show ?thesis using step by simp
  qed
qed

lemma setup_loop_Name:
  "set ps \<subseteq> set (iterNontips m) \<Longrightarrow> distinct ps \<Longrightarrow> j < length ps \<Longrightarrow>
   Name (node_at (snd (setup_loop ps i m)) (ps ! j)) =
     (if unnamed (node_at m (ps ! j))
      then Some (''node'' @ str (i + length (filter (\<lambda>q. unnamed (node_at m q)) (take j ps))))
      else Name (node_at m (ps ! j)))"
proof (induction ps arbitrary: i m j)
  case Nil
  then show ?case by simp
next
  case (Cons p ps)
  obtain i' m' where step: "setup_node p i m = (i', m')" by (cases "setup_node p i m")
  from Cons.prems have p: "p \<in> set (iterNontips m)" and d: "distinct ps" and pn: "p \<notin> set ps"
    by auto
  have s: "skel m' = skel m"
    using setup_node_skel [OF p, of i] step by simp
  have sub: "set ps \<subseteq> set (iterNontips m')"
    using Cons.prems skel_iterNontips [OF s] by simp
  have i': "i' = (if unnamed (node_at m p) then i + 1 else i)"
    using setup_node_fst [OF p, of i] step by simp
  show ?case
  proof (cases j)
    case 0
    have p': "p \<in> set (paths m')"
      using iterNontips_paths [OF p] skel_paths [OF s] by simp
    have "Name (node_at (snd (setup_loop ps i' m')) p) = Name (node_at m' p)"
      using setup_loop_other [OF sub p' pn] by simp
    also have "\<dots> = (if unnamed (node_at m p) then Some (''node'' @ str i) else Name (node_at m p))"
      using setup_node_same(2) [OF p, of i] step by simp
    finally show ?thesis using step 0 by simp
  next
    case (Suc k)
    with Cons.prems have k: "k < length ps" by simp
    have same: "Name (node_at m' q) = Name (node_at m q)" if "q \<in> set ps" for q
    proof -
      from that pn have "q \<noteq> p" by auto
      moreover from that Cons.prems have "q \<in> set (paths m)"
        by (auto intro: iterNontips_paths)
      ultimately show ?thesis
        using setup_node_other(1) [OF p, of q i] step by simp
    qed
    have un: "unnamed (node_at m' q) = unnamed (node_at m q)" if "q \<in> set ps" for q
      using same [OF that] by (rule unnamed_Name_cong)
    have cnt: "filter (\<lambda>q. unnamed (node_at m' q)) (take k ps) =
               filter (\<lambda>q. unnamed (node_at m q)) (take k ps)"
    proof (rule filter_cong [OF refl])
      fix q assume "q \<in> set (take k ps)"
      then have "q \<in> set ps" by (rule in_set_takeD)
      then show "unnamed (node_at m' q) = unnamed (node_at m q)" by (rule un)
    qed
    have kin: "ps ! k \<in> set ps" using k by simp
    have "Name (node_at (snd (setup_loop ps i' m')) (ps ! k)) =
      (if unnamed (node_at m' (ps ! k))
       then Some (''node'' @ str (i' + length (filter (\<lambda>q. unnamed (node_at m' q)) (take k ps))))
       else Name (node_at m' (ps ! k)))"
      using sub d k by (rule Cons.IH)
    then have "Name (node_at (snd (setup_loop ps i' m')) (ps ! k)) =
      (if unnamed (node_at m (ps ! k))
       then Some (''node'' @ str (i' + length (filter (\<lambda>q. unnamed (node_at m q)) (take k ps))))
       else Name (node_at m (ps ! k)))"
      by (simp only: cnt un [OF kin] same [OF kin])
    then show ?thesis using step Suc i' by simp
  qed
qed

subsection \<open>The names assigned\<close>

lemma fst_setup_master_tree:
  "fst (setup_master_tree master) = snd (setup_loop (iterNontips master) 0 master)"
  by (simp add: setup_master_tree_def split: prod.split)

text \<open>
  Claim C5. After \<^verbatim>\<open>setup_master_tree\<close>, the \<open>j\<close>-th internal node in traversal order
  (the root included) is named \<^verbatim>\<open>"node" + str(k)\<close> if its name was missing or empty,
  where \<open>k\<close> is the number of internal nodes before it in traversal order whose name
  was missing or empty: the counter starts at 0 and goes up by one per assignment. An
  internal node with a non-empty name keeps it.
\<close>

theorem setup_master_tree_names:
  assumes "j < length (iterNontips master)"
  shows "Name (node_at (fst (setup_master_tree master)) (iterNontips master ! j)) =
    (if unnamed (node_at master (iterNontips master ! j))
     then Some (''node'' @
       str (length (filter (\<lambda>q. unnamed (node_at master q)) (take j (iterNontips master)))))
     else Name (node_at master (iterNontips master ! j)))"
  using setup_loop_Name [OF subset_refl distinct_iterNontips assms, of 0]
  by (simp add: fst_setup_master_tree)

theorem setup_master_tree_names_witness:
  "(2::nat) < length (iterNontips ex_tree1) \<and>
   iterNontips ex_tree1 ! 2 = [1] \<and>
   Name (node_at ex_tree1 [1]) = None \<and>
   Name (node_at (fst (setup_master_tree ex_tree1)) (iterNontips ex_tree1 ! 2)) = Some ''node2'' \<and>
   (1::nat) < length (iterNontips ex_master) \<and>
   iterNontips ex_master ! 1 = [0] \<and>
   Name (node_at ex_master [0]) = Some ''n1'' \<and>
   Name (node_at (fst (setup_master_tree ex_master)) (iterNontips ex_master ! 1)) = Some ''n1''"
proof -
  have h: "(2::nat) < length (iterNontips ex_tree1)" by code_simp
  have e1: "iterNontips ex_tree1 ! 2 = [1]" by code_simp
  have e2: "Name (node_at ex_tree1 [1]) = None" by code_simp
  have e3: "(if unnamed (node_at ex_tree1 (iterNontips ex_tree1 ! 2))
     then Some (''node'' @
       str (length (filter (\<lambda>q. unnamed (node_at ex_tree1 q)) (take 2 (iterNontips ex_tree1)))))
     else Name (node_at ex_tree1 (iterNontips ex_tree1 ! 2))) = Some ''node2''"
    by code_simp
  have k: "(1::nat) < length (iterNontips ex_master)" by code_simp
  have f1: "iterNontips ex_master ! 1 = [0]" by code_simp
  have f2: "Name (node_at ex_master [0]) = Some ''n1''" by code_simp
  have f3: "(if unnamed (node_at ex_master (iterNontips ex_master ! 1))
     then Some (''node'' @
       str (length (filter (\<lambda>q. unnamed (node_at ex_master q)) (take 1 (iterNontips ex_master)))))
     else Name (node_at ex_master (iterNontips ex_master ! 1))) = Some ''n1''"
    by code_simp
  note a = trans [OF setup_master_tree_names [OF h] e3]
  note b = trans [OF setup_master_tree_names [OF k] f3]
  from h e1 e2 a k f1 f2 b show ?thesis by (intro conjI)
qed

subsection \<open>The check of the names\<close>

lemma getNodeNames_paths_aux:
  "getNodeNames t = map (\<lambda>p. Name (node_at t p)) (paths t)"
  "concat (map getNodeNames cs) =
     map (\<lambda>q. Name (node_at (cs ! (hd q - i)) (tl q))) (paths_from i cs)"
proof (induction t and i cs rule: paths_paths_from.induct)
  case (1 nm bs cs)
  have "map (\<lambda>q. Name (node_at (cs ! (hd q - 0)) (tl q))) (paths_from 0 cs) =
        map (\<lambda>p. Name (node_at (Node nm bs cs) p)) (paths_from 0 cs)"
  proof (rule map_cong [OF refl])
    fix q assume "q \<in> set (paths_from 0 cs)"
    then obtain k p where "q = k # p" by (auto simp: paths_from_iff)
    then show "Name (node_at (cs ! (hd q - 0)) (tl q)) = Name (node_at (Node nm bs cs) q)"
      by simp
  qed
  with 1 show ?case by simp
next
  case (2 i)
  show ?case by simp
next
  case (3 i c cs)
  have a: "map (\<lambda>q. Name (node_at ((c # cs) ! (hd q - i)) (tl q))) (map ((#) i) (paths c)) =
           map (\<lambda>p. Name (node_at c p)) (paths c)"
    by (simp add: comp_def)
  have b: "map (\<lambda>q. Name (node_at ((c # cs) ! (hd q - i)) (tl q))) (paths_from (Suc i) cs) =
           map (\<lambda>q. Name (node_at (cs ! (hd q - Suc i)) (tl q))) (paths_from (Suc i) cs)"
  proof (rule map_cong [OF refl])
    fix q assume "q \<in> set (paths_from (Suc i) cs)"
    then obtain k p where "q = (Suc i + k) # p" by (auto simp: paths_from_iff)
    then show "Name (node_at ((c # cs) ! (hd q - i)) (tl q)) =
               Name (node_at (cs ! (hd q - Suc i)) (tl q))"
      by simp
  qed
  show ?case
    using 3 by (simp add: a b del: map_map)
qed

lemma getNodeNames_paths: "getNodeNames t = map (\<lambda>p. Name (node_at t p)) (paths t)"
  by (rule getNodeNames_paths_aux)

lemma nonunique_iff:
  "card (set (getNodeNames t)) \<noteq> length (getNodeNames t) \<longleftrightarrow>
   (\<exists>p \<in> set (paths t). \<exists>q \<in> set (paths t). p \<noteq> q \<and> Name (node_at t p) = Name (node_at t q))"
proof -
  have "card (set (getNodeNames t)) \<noteq> length (getNodeNames t) \<longleftrightarrow> \<not> distinct (getNodeNames t)"
    using card_distinct distinct_card by blast
  also have "\<dots> \<longleftrightarrow> \<not> inj_on (\<lambda>p. Name (node_at t p)) (set (paths t))"
    by (simp add: getNodeNames_paths distinct_map distinct_paths)
  also have "\<dots> \<longleftrightarrow>
    (\<exists>p \<in> set (paths t). \<exists>q \<in> set (paths t). p \<noteq> q \<and> Name (node_at t p) = Name (node_at t q))"
    unfolding inj_on_def by blast
  finally show ?thesis .
qed

lemma snd_setup_master_tree:
  "snd (setup_master_tree master) =
     (if card (set (getNodeNames (fst (setup_master_tree master)))) \<noteq>
         length (getNodeNames (fst (setup_master_tree master)))
      then Some (ValueError nonunique_msg) else None)"
  by (simp add: setup_master_tree_def split: prod.split)

lemma bootstrap_support_setup_error:
  "snd (setup_master_tree master) = Some e \<Longrightarrow>
   bootstrap_support master trees = (fst (setup_master_tree master), Inl e)"
  by (cases "setup_master_tree master") (simp add: bootstrap_support_def)

section \<open>Properties of compare\<close>

lemma support_update_at_set_support:
  assumes "p \<in> set (paths t)" "q \<in> set (paths t)"
  shows "support (node_at (update_at p (set_support v) t) q) =
         (if q = p then v else support (node_at t q))"
proof (cases "q = p")
  case True
  then show ?thesis using assms by (simp add: node_at_update_at_same)
next
  case False
  have "support (node_at (update_at p (set_support v) t) q) = support (node_at t q)"
    using node_at_update_at_other [of "set_support v" p t q, OF Children_set_support assms False]
    by (rule conjunct2)
  then show ?thesis using False by simp
qed

subsection \<open>The loop: shape and names\<close>

lemma compare_loop_skel:
  "set ps \<subseteq> set (paths m) \<Longrightarrow> skel (fst (compare_loop names ps m)) = skel m"
proof (induction ps arbitrary: m)
  case Nil
  show ?case by simp
next
  case (Cons p ps)
  from Cons.prems have p: "p \<in> set (paths m)" and ps: "set ps \<subseteq> set (paths m)" by simp_all
  show ?case
  proof (cases "set (getTipNames (node_at m p)) \<in> set (map set names)")
    case False
    then show ?thesis using Cons.IH [OF ps] by simp
  next
    case True
    show ?thesis
    proof (cases "support (node_at m p)")
      case None
      with True show ?thesis by simp
    next
      case (Some b)
      define m1 where "m1 = update_at p (set_support (Some (b + 1))) m"
      have s: "skel m1 = skel m"
        unfolding m1_def using p by (rule skel_update_set_support)
      have "set ps \<subseteq> set (paths m1)"
        using ps skel_paths [OF s] by simp
      then have "skel (fst (compare_loop names ps m1)) = skel m1"
        by (rule Cons.IH)
      then show ?thesis using True Some s by (simp add: m1_def)
    qed
  qed
qed

lemma compare_loop_Name:
  "set ps \<subseteq> set (paths m) \<Longrightarrow> q \<in> set (paths m) \<Longrightarrow>
   Name (node_at (fst (compare_loop names ps m)) q) = Name (node_at m q)"
proof (induction ps arbitrary: m)
  case Nil
  show ?case by simp
next
  case (Cons p ps)
  from Cons.prems have p: "p \<in> set (paths m)" and ps: "set ps \<subseteq> set (paths m)"
    and q: "q \<in> set (paths m)" by simp_all
  show ?case
  proof (cases "set (getTipNames (node_at m p)) \<in> set (map set names)")
    case False
    then show ?thesis using Cons.IH [OF ps q] by simp
  next
    case True
    show ?thesis
    proof (cases "support (node_at m p)")
      case None
      with True show ?thesis by simp
    next
      case (Some b)
      define m1 where "m1 = update_at p (set_support (Some (b + 1))) m"
      have s: "skel m1 = skel m"
        unfolding m1_def using p by (rule skel_update_set_support)
      have ps1: "set ps \<subseteq> set (paths m1)" and q1: "q \<in> set (paths m1)"
        using ps q skel_paths [OF s] by simp_all
      have "Name (node_at (fst (compare_loop names ps m1)) q) = Name (node_at m1 q)"
        using ps1 q1 by (rule Cons.IH)
      also have "\<dots> = Name (node_at m q)"
        unfolding m1_def using p q by (rule Name_update_at_set_support)
      finally show ?thesis using True Some by (simp add: m1_def)
    qed
  qed
qed

lemma compare_loop_other:
  "set ps \<subseteq> set (paths m) \<Longrightarrow> q \<in> set (paths m) \<Longrightarrow> q \<notin> set ps \<Longrightarrow>
   support (node_at (fst (compare_loop names ps m)) q) = support (node_at m q)"
proof (induction ps arbitrary: m)
  case Nil
  show ?case by simp
next
  case (Cons p ps)
  from Cons.prems have p: "p \<in> set (paths m)" and ps: "set ps \<subseteq> set (paths m)"
    and q: "q \<in> set (paths m)" and ne: "q \<noteq> p" and nin: "q \<notin> set ps" by auto
  show ?case
  proof (cases "set (getTipNames (node_at m p)) \<in> set (map set names)")
    case False
    then show ?thesis using Cons.IH [OF ps q nin] by simp
  next
    case True
    show ?thesis
    proof (cases "support (node_at m p)")
      case None
      with True show ?thesis by simp
    next
      case (Some b)
      define m1 where "m1 = update_at p (set_support (Some (b + 1))) m"
      have s: "skel m1 = skel m"
        unfolding m1_def using p by (rule skel_update_set_support)
      have ps1: "set ps \<subseteq> set (paths m1)" and q1: "q \<in> set (paths m1)"
        using ps q skel_paths [OF s] by simp_all
      have "support (node_at (fst (compare_loop names ps m1)) q) = support (node_at m1 q)"
        using ps1 q1 nin by (rule Cons.IH)
      also have "\<dots> = support (node_at m q)"
        unfolding m1_def using p q ne by (simp add: support_update_at_set_support)
      finally show ?thesis using True Some by (simp add: m1_def)
    qed
  qed
qed

subsection \<open>The loop on a tree whose internal nodes all have a counter\<close>

lemma compare_loop_counts:
  assumes "set ps \<subseteq> set (paths m)" "distinct ps"
    and "\<forall>p \<in> set ps. support (node_at m p) \<noteq> None"
  shows "snd (compare_loop names ps m) = None \<and>
    (\<forall>q \<in> set ps. support (node_at (fst (compare_loop names ps m)) q) =
       map_option (\<lambda>b. if set (getTipNames (node_at m q)) \<in> set (map set names)
                        then b + 1 else b) (support (node_at m q)))"
  using assms
proof (induction ps arbitrary: m)
  case Nil
  show ?case by simp
next
  case (Cons p ps)
  from Cons.prems have p: "p \<in> set (paths m)" and ps: "set ps \<subseteq> set (paths m)"
    and d: "distinct ps" and pn: "p \<notin> set ps"
    and init: "\<forall>q \<in> set ps. support (node_at m q) \<noteq> None"
    by auto
  from Cons.prems obtain b where b: "support (node_at m p) = Some b" by auto
  show ?case
  proof (cases "set (getTipNames (node_at m p)) \<in> set (map set names)")
    case False
    have step: "compare_loop names (p # ps) m = compare_loop names ps m"
      using False by simp
    have "support (node_at (fst (compare_loop names ps m)) p) = support (node_at m p)"
      using ps p pn by (rule compare_loop_other)
    then show ?thesis
      using Cons.IH [OF ps d init] False b by (simp add: step del: compare_loop.simps)
  next
    case True
    define m1 where "m1 = update_at p (set_support (Some (b + 1))) m"
    have step: "compare_loop names (p # ps) m = compare_loop names ps m1"
      using True b by (simp add: m1_def)
    have s: "skel m1 = skel m"
      unfolding m1_def using p by (rule skel_update_set_support)
    have ps1: "set ps \<subseteq> set (paths m1)" and p1: "p \<in> set (paths m1)"
      using ps p skel_paths [OF s] by simp_all
    have sup1: "support (node_at m1 q) = support (node_at m q)" if "q \<in> set ps" for q
    proof -
      from that ps pn have "q \<in> set (paths m)" "q \<noteq> p" by auto
      then show ?thesis unfolding m1_def using p by (simp add: support_update_at_set_support)
    qed
    have tips1: "getTipNames (node_at m1 q) = getTipNames (node_at m q)" if "q \<in> set ps" for q
      using s that ps by (intro skel_getTipNames_at) auto
    have init1: "\<forall>q \<in> set ps. support (node_at m1 q) \<noteq> None"
      using init sup1 by simp
    note IH = Cons.IH [OF ps1 d init1]
    have head: "support (node_at (fst (compare_loop names ps m1)) p) = Some (b + 1)"
    proof -
      have "support (node_at (fst (compare_loop names ps m1)) p) = support (node_at m1 p)"
        using ps1 p1 pn by (rule compare_loop_other)
      also have "\<dots> = Some (b + 1)"
        unfolding m1_def using p by (simp add: support_update_at_set_support)
      finally show ?thesis .
    qed
    show ?thesis
      using IH head True b by (simp add: step sup1 tips1 del: compare_loop.simps)
  qed
qed

subsection \<open>One call\<close>

lemma initialisedD:
  "initialised m \<Longrightarrow> p \<in> set (iterNontips m) \<Longrightarrow> \<exists>b. support (node_at m p) = Some b"
  by (auto simp: initialised_def)

lemma compare_mismatch:
  "set (getTipNames m) \<noteq> set (getTipNames t) \<Longrightarrow>
   compare m t = (m, Some (ValueError mismatch_msg))"
  by (simp add: compare_def)

lemma compare_match_eq:
  "set (getTipNames m) = set (getTipNames t) \<Longrightarrow>
   compare m t =
     compare_loop (map (\<lambda>p. getTipNames (node_at t p)) (iterNontips t)) (iterNontips m) m"
  by (simp add: compare_def)

lemma iterNontips_subset: "set (iterNontips m) \<subseteq> set (paths m)"
  by (auto simp: iterNontips_def)

lemma compare_skel: "skel (fst (compare m t)) = skel m"
proof (cases "set (getTipNames m) = set (getTipNames t)")
  case True
  then show ?thesis
    by (simp add: compare_match_eq compare_loop_skel [OF iterNontips_subset])
next
  case False
  then show ?thesis by (simp add: compare_mismatch)
qed

lemma compare_Name:
  "q \<in> set (paths m) \<Longrightarrow> Name (node_at (fst (compare m t)) q) = Name (node_at m q)"
proof (cases "set (getTipNames m) = set (getTipNames t)")
  case True
  assume "q \<in> set (paths m)"
  then show ?thesis
    using True by (simp add: compare_match_eq compare_loop_Name [OF iterNontips_subset])
next
  case False
  then show ?thesis by (simp add: compare_mismatch)
qed

lemma compare_snd:
  assumes "initialised m"
  shows "snd (compare m t) =
    (if set (getTipNames m) \<noteq> set (getTipNames t) then Some (ValueError mismatch_msg) else None)"
proof (cases "set (getTipNames m) = set (getTipNames t)")
  case True
  have "\<forall>p \<in> set (iterNontips m). support (node_at m p) \<noteq> None"
    using assms by (simp add: initialised_def)
  from compare_loop_counts [OF iterNontips_subset distinct_iterNontips this]
  show ?thesis using True by (simp add: compare_match_eq)
next
  case False
  then show ?thesis by (simp add: compare_mismatch)
qed

lemma compare_support:
  assumes "initialised m" and q: "q \<in> set (iterNontips m)"
  shows "support (node_at (fst (compare m t)) q) =
    map_option (\<lambda>b. if set (getTipNames m) = set (getTipNames t) \<and> supported_by m q t
                     then b + 1 else b) (support (node_at m q))"
proof (cases "set (getTipNames m) = set (getTipNames t)")
  case True
  have "\<forall>p \<in> set (iterNontips m). support (node_at m p) \<noteq> None"
    using assms by (simp add: initialised_def)
  from compare_loop_counts [OF iterNontips_subset distinct_iterNontips this]
  show ?thesis using True q by (simp add: compare_match_eq supported_by_def image_image)
next
  case False
  then show ?thesis by (simp add: compare_mismatch option.map_ident)
qed

lemma skel_initialised:
  assumes s: "skel m' = skel m"
    and sup: "\<And>q. q \<in> set (iterNontips m) \<Longrightarrow> support (node_at m q) \<noteq> None \<Longrightarrow>
                support (node_at m' q) \<noteq> None"
    and init: "initialised m"
  shows "initialised m'"
  unfolding initialised_def
proof
  fix p assume "p \<in> set (iterNontips m')"
  then have p: "p \<in> set (iterNontips m)" using skel_iterNontips [OF s] by simp
  then have "support (node_at m p) \<noteq> None" using init by (simp add: initialised_def)
  with p show "support (node_at m' p) \<noteq> None" by (rule sup)
qed

lemma compare_initialised:
  assumes "initialised m"
  shows "initialised (fst (compare m t))"
proof (rule skel_initialised [OF compare_skel _ assms])
  fix q assume "q \<in> set (iterNontips m)" "support (node_at m q) \<noteq> None"
  then show "support (node_at (fst (compare m t)) q) \<noteq> None"
    using compare_support [OF assms, of q t] by auto
qed

lemma skel_tips_set: "skel m' = skel m \<Longrightarrow> set (getTipNames m') = set (getTipNames m)"
  using skel_getTipNames [of m' m] by simp

section \<open>Properties of the loop over the comparison trees\<close>

lemma compare_all_skel: "skel (fst (compare_all m ts)) = skel m"
proof (induction ts arbitrary: m)
  case Nil
  show ?case by simp
next
  case (Cons t ts)
  obtain m' r where c: "compare m t = (m', r)" by (cases "compare m t")
  have s: "skel m' = skel m" using compare_skel [of m t] c by simp
  show ?case
  proof (cases r)
    case None
    then show ?thesis using c s Cons.IH [of m'] by simp
  next
    case (Some e)
    then show ?thesis using c s by simp
  qed
qed

lemma compare_all_Name:
  "q \<in> set (paths m) \<Longrightarrow> Name (node_at (fst (compare_all m ts)) q) = Name (node_at m q)"
proof (induction ts arbitrary: m)
  case Nil
  show ?case by simp
next
  case (Cons t ts)
  obtain m' r where c: "compare m t = (m', r)" by (cases "compare m t")
  have s: "skel m' = skel m" using compare_skel [of m t] c by simp
  have n: "Name (node_at m' q) = Name (node_at m q)"
    using compare_Name [OF Cons.prems, of t] c by simp
  have q': "q \<in> set (paths m')" using Cons.prems skel_paths [OF s] by simp
  show ?case
  proof (cases r)
    case None
    then show ?thesis using c n Cons.IH [OF q'] by simp
  next
    case (Some e)
    then show ?thesis using c n by simp
  qed
qed

lemma compare_all_initialised:
  "initialised m \<Longrightarrow> initialised (fst (compare_all m ts))"
proof (induction ts arbitrary: m)
  case Nil
  then show ?case by simp
next
  case (Cons t ts)
  obtain m' r where c: "compare m t = (m', r)" by (cases "compare m t")
  have i: "initialised m'" using compare_initialised [OF Cons.prems, of t] c by simp
  show ?case
  proof (cases r)
    case None
    then show ?thesis using c Cons.IH [OF i] by simp
  next
    case (Some e)
    then show ?thesis using c i by simp
  qed
qed

lemma compare_all_counts:
  assumes "initialised m" "\<forall>t \<in> set ts. set (getTipNames t) = set (getTipNames m)"
  shows "snd (compare_all m ts) = None \<and>
    (\<forall>q \<in> set (iterNontips m). support (node_at (fst (compare_all m ts)) q) =
       map_option (\<lambda>b. b + of_nat (length (filter (supported_by m q) ts)))
         (support (node_at m q)))"
  using assms
proof (induction ts arbitrary: m)
  case Nil
  show ?case by (simp add: option.map_ident)
next
  case (Cons t ts)
  obtain m' r where c: "compare m t = (m', r)" by (cases "compare m t")
  from Cons.prems have tips: "set (getTipNames m) = set (getTipNames t)" by simp
  have r: "r = None" using compare_snd [OF Cons.prems(1), of t] c tips by simp
  have s: "skel m' = skel m" using compare_skel [of m t] c by simp
  have i: "initialised m'" using compare_initialised [OF Cons.prems(1), of t] c by simp
  have all: "\<forall>u \<in> set ts. set (getTipNames u) = set (getTipNames m')"
    using Cons.prems(2) skel_tips_set [OF s] by simp
  note IH = Cons.IH [OF i all]
  have step: "compare_all m (t # ts) = compare_all m' ts"
    using c r by simp
  have "support (node_at (fst (compare_all m' ts)) q) =
       map_option (\<lambda>b. b + of_nat (length (filter (supported_by m q) (t # ts))))
         (support (node_at m q))" if q: "q \<in> set (iterNontips m)" for q
  proof -
    have q': "q \<in> set (iterNontips m')" using q skel_iterNontips [OF s] by simp
    have qp: "q \<in> set (paths m)" using q iterNontips_subset by auto
    have sb: "supported_by m' q = supported_by m q"
      by (rule ext) (rule skel_supported_by [OF s qp])
    obtain b where b: "support (node_at m q) = Some b"
      using initialisedD [OF Cons.prems(1) q] by blast
    have b': "support (node_at m' q) = Some (if supported_by m q t then b + 1 else b)"
      using compare_support [OF Cons.prems(1) q, of t] c tips b by simp
    have "support (node_at (fst (compare_all m' ts)) q) =
       map_option (\<lambda>b. b + of_nat (length (filter (supported_by m' q) ts)))
         (support (node_at m' q))"
      using IH q' by blast
    then show ?thesis
      by (simp add: sb b b')
  qed
  then show ?case using IH by (simp add: step del: compare_all.simps)
qed

lemma compare_all_bound:
  assumes "initialised m" "q \<in> set (iterNontips m)"
  shows "\<exists>k \<le> length ts. support (node_at (fst (compare_all m ts)) q) =
       map_option (\<lambda>b. b + of_nat k) (support (node_at m q))"
  using assms
proof (induction ts arbitrary: m)
  case Nil
  show ?case by (simp add: option.map_ident)
next
  case (Cons t ts)
  obtain m' r where c: "compare m t = (m', r)" by (cases "compare m t")
  have s: "skel m' = skel m" using compare_skel [of m t] c by simp
  have i: "initialised m'" using compare_initialised [OF Cons.prems(1), of t] c by simp
  have q': "q \<in> set (iterNontips m')" using Cons.prems(2) skel_iterNontips [OF s] by simp
  obtain b where b: "support (node_at m q) = Some b"
    using initialisedD [OF Cons.prems] by blast
  define j :: nat where
    "j = (if set (getTipNames m) = set (getTipNames t) \<and> supported_by m q t then 1 else 0)"
  have b': "support (node_at m' q) = Some (b + of_nat j)"
    using compare_support [OF Cons.prems, of t] c b by (simp add: j_def)
  have j: "j \<le> 1" by (simp add: j_def)
  show ?case
  proof (cases r)
    case (Some e)
    then have "fst (compare_all m (t # ts)) = m'" using c by simp
    then have "support (node_at (fst (compare_all m (t # ts))) q) =
       map_option (\<lambda>b. b + of_nat j) (support (node_at m q))"
      using b b' by simp
    moreover have "j \<le> length (t # ts)" using j by simp
    ultimately show ?thesis by blast
  next
    case None
    then have step: "compare_all m (t # ts) = compare_all m' ts" using c by simp
    from Cons.IH [OF i q'] obtain k where k: "k \<le> length ts"
      "support (node_at (fst (compare_all m' ts)) q) =
         map_option (\<lambda>b. b + of_nat k) (support (node_at m' q))"
      by blast
    have "support (node_at (fst (compare_all m (t # ts))) q) =
       map_option (\<lambda>b. b + of_nat (j + k)) (support (node_at m q))"
      using k(2) b b' by (simp add: step del: compare_all.simps)
    moreover have "j + k \<le> length (t # ts)" using j k(1) by simp
    ultimately show ?thesis by blast
  qed
qed

lemma compare_all_append:
  "compare_all m (xs @ ys) =
     (case compare_all m xs of
        (m', Some e) \<Rightarrow> (m', Some e)
      | (m', None) \<Rightarrow> compare_all m' ys)"
proof (induction xs arbitrary: m)
  case Nil
  show ?case by simp
next
  case (Cons t xs)
  show ?case
    by (cases "compare m t") (auto simp: Cons.IH split: option.split prod.split)
qed

section \<open>Properties of the last loop of bootstrap_support\<close>

lemma support_loop_zero:
  "support (node_at m p) = Some b \<Longrightarrow> support_loop 0 (p # ps) m d = (m, Inl ZeroDivisionError)"
  by simp

lemma support_loop_step:
  assumes "support (node_at m p) = Some b" "n \<noteq> 0" "p \<in> set (paths m)"
  shows "support_loop n (p # ps) m d =
    support_loop n ps (update_at p (set_support (Some (b / of_nat n))) m)
      (d(Name (node_at m p) \<mapsto> b / of_nat n))"
  using assms by (simp add: Let_def Name_update_at_set_support)

lemma support_loop_tree:
  assumes "set ps \<subseteq> set (paths m)" "distinct ps"
    and "\<forall>p \<in> set ps. support (node_at m p) \<noteq> None" and "n \<noteq> 0"
  shows "skel (fst (support_loop n ps m d)) = skel m \<and>
    (\<forall>q \<in> set (paths m).
       Name (node_at (fst (support_loop n ps m d)) q) = Name (node_at m q) \<and>
       support (node_at (fst (support_loop n ps m d)) q) =
         (if q \<in> set ps then map_option (\<lambda>b. b / of_nat n) (support (node_at m q))
          else support (node_at m q)))"
  using assms(1-3)
proof (induction ps arbitrary: m d)
  case Nil
  show ?case by simp
next
  case (Cons p ps)
  from Cons.prems have p: "p \<in> set (paths m)" and ps: "set ps \<subseteq> set (paths m)"
    and dist: "distinct ps" and pn: "p \<notin> set ps"
    and init: "\<forall>q \<in> set ps. support (node_at m q) \<noteq> None"
    by auto
  from Cons.prems obtain b where b: "support (node_at m p) = Some b" by auto
  define m1 where "m1 = update_at p (set_support (Some (b / of_nat n))) m"
  define d1 where "d1 = d(Name (node_at m p) \<mapsto> b / of_nat n)"
  have step: "support_loop n (p # ps) m d = support_loop n ps m1 d1"
    unfolding m1_def d1_def using b \<open>n \<noteq> 0\<close> p by (rule support_loop_step)
  have s: "skel m1 = skel m"
    unfolding m1_def using p by (rule skel_update_set_support)
  have pe: "paths m1 = paths m" using s by (rule skel_paths)
  have nm1: "Name (node_at m1 q) = Name (node_at m q)" if "q \<in> set (paths m)" for q
    unfolding m1_def using p that by (rule Name_update_at_set_support)
  have sup1: "support (node_at m1 q) = (if q = p then Some (b / of_nat n) else support (node_at m q))"
    if "q \<in> set (paths m)" for q
    unfolding m1_def using p that by (rule support_update_at_set_support)
  have ps1: "set ps \<subseteq> set (paths m1)" using ps pe by simp
  have init1: "\<forall>q \<in> set ps. support (node_at m1 q) \<noteq> None"
  proof
    fix q assume q: "q \<in> set ps"
    then have "q \<in> set (paths m)" "q \<noteq> p" using ps pn by auto
    then show "support (node_at m1 q) \<noteq> None" using sup1 [of q] init q by simp
  qed
  note IH = Cons.IH [OF ps1 dist init1, of d1]
  have "Name (node_at (fst (support_loop n ps m1 d1)) q) = Name (node_at m q) \<and>
       support (node_at (fst (support_loop n ps m1 d1)) q) =
         (if q \<in> set (p # ps) then map_option (\<lambda>b. b / of_nat n) (support (node_at m q))
          else support (node_at m q))" if q: "q \<in> set (paths m)" for q
  proof -
    have q1: "q \<in> set (paths m1)" using q pe by simp
    from IH q1 have
      a: "Name (node_at (fst (support_loop n ps m1 d1)) q) = Name (node_at m1 q)" and
      c: "support (node_at (fst (support_loop n ps m1 d1)) q) =
         (if q \<in> set ps then map_option (\<lambda>b. b / of_nat n) (support (node_at m1 q))
          else support (node_at m1 q))"
      by blast+
    show ?thesis
    proof (cases "q = p")
      case True
      then show ?thesis using a c nm1 [OF q] sup1 [OF q] pn b by simp
    next
      case False
      then show ?thesis using a c nm1 [OF q] sup1 [OF q] by simp
    qed
  qed
  moreover have "skel (fst (support_loop n ps m1 d1)) = skel m"
    using IH s by simp
  ultimately show ?case
    by (simp only: step) blast
qed

lemma support_loop_dict:
  assumes "set ps \<subseteq> set (paths m)" "distinct ps"
    and "\<forall>p \<in> set ps. support (node_at m p) \<noteq> None" and "n \<noteq> 0"
  shows "\<exists>d'. snd (support_loop n ps m d) = Inr d' \<and>
    (\<forall>k. k \<notin> (\<lambda>q. Name (node_at m q)) ` set ps \<longrightarrow> d' k = d k) \<and>
    (inj_on (\<lambda>q. Name (node_at m q)) (set ps) \<longrightarrow>
       (\<forall>q \<in> set ps. d' (Name (node_at m q)) =
          map_option (\<lambda>b. b / of_nat n) (support (node_at m q))))"
  using assms(1-3)
proof (induction ps arbitrary: m d)
  case Nil
  show ?case by simp
next
  case (Cons p ps)
  from Cons.prems have p: "p \<in> set (paths m)" and ps: "set ps \<subseteq> set (paths m)"
    and dist: "distinct ps" and pn: "p \<notin> set ps"
    and init: "\<forall>q \<in> set ps. support (node_at m q) \<noteq> None"
    by auto
  from Cons.prems obtain b where b: "support (node_at m p) = Some b" by auto
  define m1 where "m1 = update_at p (set_support (Some (b / of_nat n))) m"
  define d1 where "d1 = d(Name (node_at m p) \<mapsto> b / of_nat n)"
  have step: "support_loop n (p # ps) m d = support_loop n ps m1 d1"
    unfolding m1_def d1_def using b \<open>n \<noteq> 0\<close> p by (rule support_loop_step)
  have s: "skel m1 = skel m"
    unfolding m1_def using p by (rule skel_update_set_support)
  have pe: "paths m1 = paths m" using s by (rule skel_paths)
  have nm1: "Name (node_at m1 q) = Name (node_at m q)" if "q \<in> set ps" for q
  proof -
    from that ps have "q \<in> set (paths m)" by auto
    with p show ?thesis unfolding m1_def by (rule Name_update_at_set_support)
  qed
  have sup1: "support (node_at m1 q) = support (node_at m q)" if "q \<in> set ps" for q
  proof -
    from that ps pn have "q \<in> set (paths m)" "q \<noteq> p" by auto
    then show ?thesis unfolding m1_def using p by (simp add: support_update_at_set_support)
  qed
  have ps1: "set ps \<subseteq> set (paths m1)" using ps pe by simp
  have init1: "\<forall>q \<in> set ps. support (node_at m1 q) \<noteq> None"
    using init sup1 by simp
  have img: "(\<lambda>q. Name (node_at m1 q)) ` set ps = (\<lambda>q. Name (node_at m q)) ` set ps"
    by (rule image_cong [OF refl]) (rule nm1)
  have inj: "inj_on (\<lambda>q. Name (node_at m1 q)) (set ps) = inj_on (\<lambda>q. Name (node_at m q)) (set ps)"
    by (rule inj_on_cong) (rule nm1)
  from Cons.IH [OF ps1 dist init1, of d1] obtain d' where
    r: "snd (support_loop n ps m1 d1) = Inr d'" and
    keep: "\<And>k. k \<notin> (\<lambda>q. Name (node_at m q)) ` set ps \<Longrightarrow> d' k = d1 k" and
    vals: "\<And>q. inj_on (\<lambda>q. Name (node_at m q)) (set ps) \<Longrightarrow> q \<in> set ps \<Longrightarrow>
             d' (Name (node_at m q)) = map_option (\<lambda>b. b / of_nat n) (support (node_at m q))"
    unfolding img inj using nm1 sup1 by (metis (no_types, lifting))
  have k1: "d' k = d k" if "k \<notin> (\<lambda>q. Name (node_at m q)) ` set (p # ps)" for k
  proof -
    from that have "k \<notin> (\<lambda>q. Name (node_at m q)) ` set ps" "k \<noteq> Name (node_at m p)" by auto
    then show ?thesis using keep [of k] by (simp add: d1_def)
  qed
  have k2: "d' (Name (node_at m q)) = map_option (\<lambda>b. b / of_nat n) (support (node_at m q))"
    if i: "inj_on (\<lambda>q. Name (node_at m q)) (set (p # ps))" and q: "q \<in> set (p # ps)" for q
  proof (cases "q = p")
    case True
    have "Name (node_at m p) \<notin> (\<lambda>q. Name (node_at m q)) ` set ps"
      using i pn by (auto simp: inj_on_def)
    then have "d' (Name (node_at m p)) = d1 (Name (node_at m p))" by (rule keep)
    then show ?thesis using True b by (simp add: d1_def)
  next
    case False
    with q have "q \<in> set ps" by simp
    moreover have "inj_on (\<lambda>q. Name (node_at m q)) (set ps)"
      using i by (simp add: inj_on_def)
    ultimately show ?thesis by (rule vals [rotated])
  qed
  show ?case
    unfolding step using r k1 k2 by blast
qed

section \<open>Properties of bootstrap_support\<close>

lemma setup_skel: "skel (fst (setup_master_tree M)) = skel M"
  by (simp add: fst_setup_master_tree setup_loop_skel)

lemma setup_support:
  "p \<in> set (iterNontips M) \<Longrightarrow> support (node_at (fst (setup_master_tree M)) p) = Some 0"
  by (simp add: fst_setup_master_tree setup_loop_support distinct_iterNontips)

lemma setup_initialised: "initialised (fst (setup_master_tree M))"
  unfolding initialised_def
proof
  fix p assume "p \<in> set (iterNontips (fst (setup_master_tree M)))"
  then have "p \<in> set (iterNontips M)"
    using skel_iterNontips [OF setup_skel, of M] by simp
  then show "support (node_at (fst (setup_master_tree M)) p) \<noteq> None"
    by (simp add: setup_support)
qed

lemma setup_ok_inj:
  assumes "snd (setup_master_tree M) = None"
  shows "inj_on (\<lambda>p. Name (node_at (fst (setup_master_tree M)) p)) (set (paths M))"
proof -
  define M0 where "M0 = fst (setup_master_tree M)"
  have "\<not> (card (set (getNodeNames M0)) \<noteq> length (getNodeNames M0))"
    using assms snd_setup_master_tree [of M] by (auto simp: M0_def split: if_splits)
  then have "\<not> (\<exists>p \<in> set (paths M0). \<exists>q \<in> set (paths M0).
      p \<noteq> q \<and> Name (node_at M0 p) = Name (node_at M0 q))"
    using nonunique_iff [of M0] by blast
  moreover have "paths M0 = paths M"
    unfolding M0_def by (rule skel_paths [OF setup_skel])
  ultimately show ?thesis
    unfolding inj_on_def M0_def [symmetric] by auto
qed

lemma bootstrap_support_after_setup:
  assumes "snd (setup_master_tree M) = None"
  shows "bootstrap_support M T =
    (case compare_all (fst (setup_master_tree M)) T of
       (m1, Some e) \<Rightarrow> (m1, Inl e)
     | (m1, None) \<Rightarrow> support_loop (length T) (iterNontips m1) m1 Map.empty)"
  using assms by (cases "setup_master_tree M") (simp add: bootstrap_support_def)

lemma bootstrap_support_ok:
  assumes ok: "snd (setup_master_tree M) = None"
    and tips: "\<forall>t \<in> set T. set (getTipNames t) = set (getTipNames M)"
    and ne: "T \<noteq> []"
  shows "\<exists>d. snd (bootstrap_support M T) = Inr d \<and>
    skel (fst (bootstrap_support M T)) = skel M \<and>
    (\<forall>p \<in> set (iterNontips M).
       Name (node_at (fst (bootstrap_support M T)) p) =
         Name (node_at (fst (setup_master_tree M)) p) \<and>
       support (node_at (fst (bootstrap_support M T)) p) =
         Some (of_nat (length (filter (supported_by M p) T)) / of_nat (length T)) \<and>
       d (Name (node_at (fst (bootstrap_support M T)) p)) =
         Some (of_nat (length (filter (supported_by M p) T)) / of_nat (length T)))"
proof -
  define M0 where "M0 = fst (setup_master_tree M)"
  define M1 where "M1 = fst (compare_all M0 T)"
  define n where "n = length T"
  define r where "r = support_loop n (iterNontips M1) M1 Map.empty"
  have s0: "skel M0 = skel M" unfolding M0_def by (rule setup_skel)
  have i0: "initialised M0" unfolding M0_def by (rule setup_initialised)
  have tips0: "\<forall>t \<in> set T. set (getTipNames t) = set (getTipNames M0)"
    using tips skel_tips_set [OF s0] by simp
  note ca = compare_all_counts [OF i0 tips0]
  have c_ok: "snd (compare_all M0 T) = None" using ca by simp
  have s1: "skel M1 = skel M0" unfolding M1_def by (rule compare_all_skel)
  have i1: "initialised M1" unfolding M1_def using i0 by (rule compare_all_initialised)
  have nt0: "iterNontips M0 = iterNontips M" using s0 by (rule skel_iterNontips)
  have nt1: "iterNontips M1 = iterNontips M"
    using skel_iterNontips [OF s1] nt0 by simp
  have pe: "paths M1 = paths M"
    using skel_paths [OF s1] skel_paths [OF s0] by simp
  have bs: "bootstrap_support M T = r"
    unfolding r_def n_def M1_def M0_def
    using c_ok [unfolded M0_def]
    by (cases "compare_all (fst (setup_master_tree M)) T")
       (simp add: bootstrap_support_after_setup [OF ok])
  have n0: "n \<noteq> 0" using ne by (simp add: n_def)
  have init1: "\<forall>p \<in> set (iterNontips M1). support (node_at M1 p) \<noteq> None"
    using i1 by (simp add: initialised_def)
  note tr = support_loop_tree [OF iterNontips_subset distinct_iterNontips init1 n0,
      of Map.empty, folded r_def]
  from support_loop_dict [OF iterNontips_subset distinct_iterNontips init1 n0,
      of Map.empty, folded r_def]
  obtain d where d: "snd r = Inr d"
    and vals: "\<And>q. inj_on (\<lambda>q. Name (node_at M1 q)) (set (iterNontips M1)) \<Longrightarrow>
       q \<in> set (iterNontips M1) \<Longrightarrow>
       d (Name (node_at M1 q)) = map_option (\<lambda>b. b / of_nat n) (support (node_at M1 q))"
    by blast
  have nm1: "Name (node_at M1 q) = Name (node_at M0 q)" if "q \<in> set (paths M)" for q
  proof -
    from that have "q \<in> set (paths M0)" using skel_paths [OF s0] by simp
    then show ?thesis unfolding M1_def by (rule compare_all_Name)
  qed
  have inj0: "inj_on (\<lambda>p. Name (node_at M0 p)) (set (paths M))"
    unfolding M0_def using ok by (rule setup_ok_inj)
  have inj1: "inj_on (\<lambda>q. Name (node_at M1 q)) (set (iterNontips M1))"
  proof (rule inj_onI)
    fix x y assume x: "x \<in> set (iterNontips M1)" and y: "y \<in> set (iterNontips M1)"
      and e: "Name (node_at M1 x) = Name (node_at M1 y)"
    from x y have xp: "x \<in> set (paths M)" and yp: "y \<in> set (paths M)"
      using iterNontips_subset [of M1] pe by auto
    from e have "Name (node_at M0 x) = Name (node_at M0 y)"
      by (simp add: nm1 [OF xp] nm1 [OF yp])
    with inj0 xp yp show "x = y" by (auto dest: inj_onD)
  qed
  have main: "Name (node_at (fst r) p) = Name (node_at M0 p) \<and>
       support (node_at (fst r) p) =
         Some (of_nat (length (filter (supported_by M p) T)) / of_nat n) \<and>
       d (Name (node_at (fst r) p)) =
         Some (of_nat (length (filter (supported_by M p) T)) / of_nat n)"
    if p: "p \<in> set (iterNontips M)" for p
  proof -
    have pp: "p \<in> set (paths M)" using p iterNontips_subset by auto
    have p0: "p \<in> set (iterNontips M0)" and p1: "p \<in> set (iterNontips M1)"
      using p nt0 nt1 by simp_all
    have pp1: "p \<in> set (paths M1)" using pp pe by simp
    have z: "support (node_at M0 p) = Some 0"
      unfolding M0_def using p by (rule setup_support)
    have sb: "supported_by M0 p = supported_by M p"
      by (rule ext) (rule skel_supported_by [OF s0 pp])
    have c1: "support (node_at M1 p) = Some (of_nat (length (filter (supported_by M p) T)))"
      using ca p0 z by (simp add: M1_def sb)
    from tr pp1 have a: "Name (node_at (fst r) p) = Name (node_at M1 p)"
      and b: "support (node_at (fst r) p) =
         (if p \<in> set (iterNontips M1) then map_option (\<lambda>b. b / of_nat n) (support (node_at M1 p))
          else support (node_at M1 p))"
      by blast+
    have v: "d (Name (node_at M1 p)) = map_option (\<lambda>b. b / of_nat n) (support (node_at M1 p))"
      using inj1 p1 by (rule vals)
    show ?thesis
      using a b v p1 c1 nm1 [OF pp] by simp
  qed
  have "skel (fst r) = skel M" using tr s1 s0 by simp
  with d main show ?thesis
    unfolding bs n_def M0_def by blast
qed

lemma bootstrap_support_empty:
  assumes ok: "snd (setup_master_tree M) = None"
  shows "bootstrap_support M [] =
    (if iterNontips M = [] then (fst (setup_master_tree M), Inr Map.empty)
     else (fst (setup_master_tree M), Inl ZeroDivisionError))"
proof -
  define M0 where "M0 = fst (setup_master_tree M)"
  have s0: "skel M0 = skel M" unfolding M0_def by (rule setup_skel)
  have nt0: "iterNontips M0 = iterNontips M" using s0 by (rule skel_iterNontips)
  have bs: "bootstrap_support M [] = support_loop 0 (iterNontips M) M0 Map.empty"
    using nt0 by (simp add: bootstrap_support_after_setup [OF ok] M0_def)
  show ?thesis
  proof (cases "iterNontips M")
    case Nil
    then show ?thesis using bs by (simp add: M0_def)
  next
    case (Cons p ps)
    then have "p \<in> set (iterNontips M)" by simp
    then have "support (node_at M0 p) = Some 0" unfolding M0_def by (rule setup_support)
    then have "support_loop 0 (p # ps) M0 Map.empty = (M0, Inl ZeroDivisionError)"
      by (rule support_loop_zero)
    then show ?thesis using bs Cons by (simp add: M0_def)
  qed
qed

section \<open>The support fractions\<close>

lemma bootstrap_support_cases:
  assumes tips: "\<forall>t \<in> set T. set (getTipNames t) = set (getTipNames M)"
  obtains (setup_error) e where "snd (setup_master_tree M) = Some e"
      "bootstrap_support M T = (fst (setup_master_tree M), Inl e)"
    | (no_trees) "snd (setup_master_tree M) = None" "T = []"
      "bootstrap_support M T =
        (if iterNontips M = [] then (fst (setup_master_tree M), Inr Map.empty)
         else (fst (setup_master_tree M), Inl ZeroDivisionError))"
    | (supports) d where "snd (setup_master_tree M) = None" "T \<noteq> []"
      "bootstrap_support M T = (fst (bootstrap_support M T), Inr d)"
      "skel (fst (bootstrap_support M T)) = skel M"
      "\<And>p. p \<in> set (iterNontips M) \<Longrightarrow>
         Name (node_at (fst (bootstrap_support M T)) p) =
           Name (node_at (fst (setup_master_tree M)) p) \<and>
         support (node_at (fst (bootstrap_support M T)) p) =
           Some (of_nat (length (filter (supported_by M p) T)) / of_nat (length T)) \<and>
         d (Name (node_at (fst (bootstrap_support M T)) p)) =
           Some (of_nat (length (filter (supported_by M p) T)) / of_nat (length T))"
proof (cases "snd (setup_master_tree M)")
  case (Some e)
  then show ?thesis
    using bootstrap_support_setup_error [of M e T] setup_error by blast
next
  case None
  show ?thesis
  proof (cases "T = []")
    case True
    then show ?thesis using None bootstrap_support_empty [OF None] no_trees by simp
  next
    case False
    from bootstrap_support_ok [OF None tips False] obtain d where
      d: "snd (bootstrap_support M T) = Inr d"
      "skel (fst (bootstrap_support M T)) = skel M"
      "\<forall>p \<in> set (iterNontips M).
         Name (node_at (fst (bootstrap_support M T)) p) =
           Name (node_at (fst (setup_master_tree M)) p) \<and>
         support (node_at (fst (bootstrap_support M T)) p) =
           Some (of_nat (length (filter (supported_by M p) T)) / of_nat (length T)) \<and>
         d (Name (node_at (fst (bootstrap_support M T)) p)) =
           Some (of_nat (length (filter (supported_by M p) T)) / of_nat (length T))"
      by blast
    have "bootstrap_support M T = (fst (bootstrap_support M T), Inr d)"
      using d(1) by (cases "bootstrap_support M T") simp
    then show ?thesis using supports [of d] None False d(2,3) by blast
  qed
qed

text \<open>
  Claim C3. When every comparison tree has the leaf-label set of the master tree, every
  internal node of the master tree ends with a support fraction between 0 and 1, stored
  on the node and in the returned dictionary under the node's name. The only runs that
  return no fraction are those in which \<^verbatim>\<open>setup_master_tree\<close> raised, and the run with no
  comparison tree and a master tree that has an internal node, which divides by zero.
\<close>

theorem support_fraction_range:
  assumes "\<forall>t \<in> set T. set (getTipNames t) = set (getTipNames M)"
  shows "case bootstrap_support M T of
      (M', Inr d) \<Rightarrow>
        (\<forall>p \<in> set (iterNontips M'). \<exists>v. support (node_at M' p) = Some v \<and>
            d (Name (node_at M' p)) = Some v \<and> 0 \<le> v \<and> v \<le> 1)
    | (M', Inl e) \<Rightarrow>
        snd (setup_master_tree M) = Some e \<or>
        (T = [] \<and> iterNontips M \<noteq> [] \<and> e = ZeroDivisionError)"
  using assms
proof (cases rule: bootstrap_support_cases)
  case (setup_error e)
  then show ?thesis by simp
next
  case no_trees
  have "iterNontips (fst (setup_master_tree M)) = iterNontips M"
    by (rule skel_iterNontips [OF setup_skel])
  then show ?thesis using no_trees by simp
next
  case (supports d)
  define M' where "M' = fst (bootstrap_support M T)"
  have nt: "iterNontips M' = iterNontips M"
    unfolding M'_def using supports(4) by (rule skel_iterNontips)
  have "\<exists>v. support (node_at M' p) = Some v \<and> d (Name (node_at M' p)) = Some v \<and>
          0 \<le> v \<and> v \<le> 1" if "p \<in> set (iterNontips M')" for p
  proof -
    define k where "k = length (filter (supported_by M p) T)"
    have "k \<le> length T" by (simp add: k_def)
    moreover have "0 < length T" using supports(2) by simp
    ultimately have "(0::rat) \<le> of_nat k / of_nat (length T)"
      "of_nat k / of_nat (length T) \<le> (1::rat)"
      by simp_all
    moreover from that nt have "p \<in> set (iterNontips M)" by simp
    from supports(5) [OF this]
    have "support (node_at M' p) = Some (of_nat k / of_nat (length T))"
      "d (Name (node_at M' p)) = Some (of_nat k / of_nat (length T))"
      unfolding M'_def k_def by blast+
    ultimately show ?thesis by blast
  qed
  then have "\<forall>p \<in> set (iterNontips M'). \<exists>v. support (node_at M' p) = Some v \<and>
      d (Name (node_at M' p)) = Some v \<and> 0 \<le> v \<and> v \<le> 1"
    by blast
  moreover have "bootstrap_support M T = (M', Inr d)"
    using supports(3) by (simp add: M'_def)
  ultimately show ?thesis by simp
qed

text \<open>
  The scenario of the specification satisfies the hypothesis of C3; node \<^verbatim>\<open>n1\<close>, at
  position \<open>[0]\<close>, ends with 1/2.
\<close>

theorem support_fraction_range_witness:
  "set (getTipNames ex_tree1) = set (getTipNames ex_master) \<and>
   set (getTipNames ex_tree2) = set (getTipNames ex_master) \<and>
   [0] \<in> set (iterNontips (fst (bootstrap_support ex_master [ex_tree1, ex_tree2]))) \<and>
   support (node_at (fst (bootstrap_support ex_master [ex_tree1, ex_tree2])) [0]) = Some (1 / 2) \<and>
   (\<exists>v. support (node_at (fst (bootstrap_support ex_master [ex_tree1, ex_tree2])) [0]) = Some v \<and>
        0 \<le> v \<and> v \<le> 1)"
proof -
  define R where "R = bootstrap_support ex_master [ex_tree1, ex_tree2]"
  have h1: "set (getTipNames ex_tree1) = set (getTipNames ex_master)" by code_simp
  have h2: "set (getTipNames ex_tree2) = set (getTipNames ex_master)" by code_simp
  have hyp: "\<forall>t \<in> set [ex_tree1, ex_tree2]. set (getTipNames t) = set (getTipNames ex_master)"
    using h1 h2 by simp
  have "case snd (bootstrap_support ex_master [ex_tree1, ex_tree2]) of
          Inr d \<Rightarrow> True | Inl e \<Rightarrow> False"
    by code_simp
  then obtain d where d: "snd R = Inr d"
    unfolding R_def by (cases "snd (bootstrap_support ex_master [ex_tree1, ex_tree2])") simp_all
  have mem: "[0] \<in> set (iterNontips (fst R))" unfolding R_def by code_simp
  have val: "support (node_at (fst R) [0]) = Some (1 / 2)" unfolding R_def by code_simp
  have "\<forall>p \<in> set (iterNontips (fst R)). \<exists>v. support (node_at (fst R) p) = Some v \<and>
            d (Name (node_at (fst R) p)) = Some v \<and> 0 \<le> v \<and> v \<le> 1"
    using support_fraction_range [OF hyp] d unfolding R_def [symmetric]
    by (cases R) simp
  with mem have "\<exists>v. support (node_at (fst R) [0]) = Some v \<and> 0 \<le> v \<and> v \<le> 1"
    by blast
  with h1 h2 mem val show ?thesis unfolding R_def by blast
qed

text \<open>
  Claim C1. For the master tree \<^verbatim>\<open>((A,B)n1,(C,D)n2);\<close> and the comparison trees
  \<^verbatim>\<open>((A,B),(C,D));\<close> and \<^verbatim>\<open>((A,C),(B,D));\<close>, \<^verbatim>\<open>bootstrap_support\<close> returns a dictionary in
  which \<^verbatim>\<open>n1\<close> (clade A, B) and \<^verbatim>\<open>n2\<close> (clade C, D) have support 1/2 and the root (clade
  A, B, C, D; named \<^verbatim>\<open>node0\<close> by \<^verbatim>\<open>setup_master_tree\<close>) has support 1.
\<close>

theorem bootstrap_support_scenario:
  "case bootstrap_support ex_master [ex_tree1, ex_tree2] of
     (M', Inr d) \<Rightarrow>
       Name (node_at M' [0]) = Some ''n1'' \<and>
       set (getTipNames (node_at M' [0])) = {Some ''A'', Some ''B''} \<and>
       support (node_at M' [0]) = Some (1 / 2) \<and> d (Some ''n1'') = Some (1 / 2) \<and>
       Name (node_at M' [1]) = Some ''n2'' \<and>
       set (getTipNames (node_at M' [1])) = {Some ''C'', Some ''D''} \<and>
       support (node_at M' [1]) = Some (1 / 2) \<and> d (Some ''n2'') = Some (1 / 2) \<and>
       Name (node_at M' []) = Some ''node0'' \<and>
       set (getTipNames (node_at M' [])) = {Some ''A'', Some ''B'', Some ''C'', Some ''D''} \<and>
       support (node_at M' []) = Some 1 \<and> d (Some ''node0'') = Some 1 \<and>
       iterNontips M' = [[], [0], [1]]
   | (M', Inl e) \<Rightarrow> False"
  by code_simp

text \<open>
  Claim C4 as stated fails, in two ways. The master tree \<^verbatim>\<open>(x);\<close> has an internal root
  whose clade is the full leaf set; a comparison tree that is the one tip \<^verbatim>\<open>x\<close> has the
  same leaf set but no internal node, so \<^verbatim>\<open>compare\<close> finds no clade in it and the root
  ends with support 0. And for the master tree \<^verbatim>\<open>((A,B)node0,C);\<close> with the comparison
  tree \<^verbatim>\<open>((A,B),C);\<close>, whose root is an internal node with the clade of the master's
  root, \<^verbatim>\<open>setup_master_tree\<close> raises: no support is returned, and the counter of the root
  stays 0.
\<close>

theorem full_clade_counterexample:
  "set (getTipNames ex_single_tip) = set (getTipNames ex_single_master) \<and>
   [] \<in> set (iterNontips ex_single_master) \<and>
   set (getTipNames (node_at ex_single_master [])) = set (getTipNames ex_single_master) \<and>
   (case bootstrap_support ex_single_master [ex_single_tip] of
      (M', Inr d) \<Rightarrow>
        Name (node_at M' []) = Some ''node0'' \<and> support (node_at M' []) = Some 0 \<and>
        d (Some ''node0'') = Some 0
    | (M', Inl e) \<Rightarrow> False) \<and>
   set (getTipNames ex_clash_tree) = set (getTipNames ex_clash) \<and>
   Children ex_clash_tree \<noteq> [] \<and>
   [] \<in> set (iterNontips ex_clash) \<and>
   set (getTipNames (node_at ex_clash [])) = set (getTipNames ex_clash) \<and>
   (case bootstrap_support ex_clash [ex_clash_tree] of
      (M', Inr d) \<Rightarrow> False
    | (M', Inl e) \<Rightarrow> e = ValueError nonunique_msg \<and> support (node_at M' []) = Some 0)"
  by code_simp

lemma root_iterNontips: "Children t \<noteq> [] \<Longrightarrow> [] \<in> set (iterNontips t)"
  by (simp add: iterNontips_def)

lemma full_clade_supported:
  assumes "Children t \<noteq> []" "set (getTipNames (node_at M p)) = set (getTipNames t)"
  shows "supported_by M p t"
proof -
  have "set (getTipNames (node_at t [])) \<in>
        (\<lambda>q. set (getTipNames (node_at t q))) ` set (iterNontips t)"
    using root_iterNontips [OF assms(1)] by (rule imageI)
  then show ?thesis
    using assms(2) by (simp add: supported_by_def image_image)
qed

text \<open>
  Claim C4, amended. When \<^verbatim>\<open>setup_master_tree\<close> raises nothing on the master tree (no two
  of its nodes share a name after the names are assigned), the collection of comparison
  trees is not empty, and every comparison tree has the leaf-label set of the master tree
  and a root that is an internal node, then \<^verbatim>\<open>bootstrap_support\<close> returns, and every
  internal node of the master tree whose clade is the full leaf set has support 1, on
  the node and in the dictionary.
\<close>

theorem full_clade_support:
  assumes ok: "snd (setup_master_tree M) = None"
    and trees: "\<forall>t \<in> set T. set (getTipNames t) = set (getTipNames M) \<and> Children t \<noteq> []"
    and ne: "T \<noteq> []"
    and p: "p \<in> set (iterNontips M)"
    and clade: "set (getTipNames (node_at M p)) = set (getTipNames M)"
  shows "\<exists>M' d. bootstrap_support M T = (M', Inr d) \<and>
    support (node_at M' p) = Some 1 \<and> d (Name (node_at M' p)) = Some 1"
proof -
  have tips: "\<forall>t \<in> set T. set (getTipNames t) = set (getTipNames M)"
    using trees by blast
  from tips show ?thesis
  proof (cases rule: bootstrap_support_cases)
    case (setup_error e)
    with ok show ?thesis by simp
  next
    case no_trees
    with ne show ?thesis by simp
  next
    case (supports d)
    have "supported_by M p t" if "t \<in> set T" for t
    proof (rule full_clade_supported)
      show "Children t \<noteq> []" using trees that by blast
      show "set (getTipNames (node_at M p)) = set (getTipNames t)"
        using trees that clade by simp
    qed
    then have "filter (supported_by M p) T = T"
      by (simp add: filter_id_conv)
    moreover have "(of_nat (length T) :: rat) / of_nat (length T) = 1"
      using ne by simp
    ultimately have one:
      "(of_nat (length (filter (supported_by M p) T)) :: rat) / of_nat (length T) = 1"
      by simp
    from supports(5) [OF p]
    have "support (node_at (fst (bootstrap_support M T)) p) = Some 1"
      "d (Name (node_at (fst (bootstrap_support M T)) p)) = Some 1"
      unfolding one by blast+
    with supports(3) show ?thesis by blast
  qed
qed

text \<open>
  The scenario of the specification satisfies the hypotheses of the amended C4, at the
  root of the master tree.
\<close>

theorem full_clade_support_witness:
  "snd (setup_master_tree ex_master) = None \<and>
   set (getTipNames ex_tree1) = set (getTipNames ex_master) \<and> Children ex_tree1 \<noteq> [] \<and>
   set (getTipNames ex_tree2) = set (getTipNames ex_master) \<and> Children ex_tree2 \<noteq> [] \<and>
   [] \<in> set (iterNontips ex_master) \<and>
   set (getTipNames (node_at ex_master [])) = set (getTipNames ex_master) \<and>
   (\<exists>M' d. bootstrap_support ex_master [ex_tree1, ex_tree2] = (M', Inr d) \<and>
      support (node_at M' []) = Some 1 \<and> d (Name (node_at M' [])) = Some 1)"
proof -
  have s: "snd (setup_master_tree ex_master) = None" by code_simp
  have h1: "set (getTipNames ex_tree1) = set (getTipNames ex_master)" by code_simp
  have h2: "set (getTipNames ex_tree2) = set (getTipNames ex_master)" by code_simp
  have c1: "Children ex_tree1 \<noteq> []" by code_simp
  have c2: "Children ex_tree2 \<noteq> []" by code_simp
  have p: "[] \<in> set (iterNontips ex_master)" by code_simp
  have cl: "set (getTipNames (node_at ex_master [])) = set (getTipNames ex_master)" by simp
  have hyp: "\<forall>t \<in> set [ex_tree1, ex_tree2].
      set (getTipNames t) = set (getTipNames ex_master) \<and> Children t \<noteq> []"
    using h1 h2 c1 c2 by simp
  have ne: "[ex_tree1, ex_tree2] \<noteq> []" by simp
  note T = full_clade_support [OF s hyp ne p cl]
  from s h1 c1 h2 c2 p cl T show ?thesis by (intro conjI)
qed

section \<open>The errors of compare\<close>

lemma compare_loop_snd:
  "snd (compare_loop names ps m) = None \<or> snd (compare_loop names ps m) = Some AttributeError"
proof (induction ps arbitrary: m)
  case Nil
  show ?case by simp
next
  case (Cons p ps)
  show ?case
  proof (cases "set (getTipNames (node_at m p)) \<in> set (map set names)")
    case False
    then show ?thesis using Cons.IH [of m] by simp
  next
    case True
    show ?thesis
    proof (cases "support (node_at m p)")
      case None
      with True show ?thesis by simp
    next
      case (Some b)
      with True show ?thesis
        using Cons.IH [of "update_at p (set_support (Some (b + 1))) m"] by simp
    qed
  qed
qed

text \<open>
  Claim C2. \<^verbatim>\<open>compare\<close> raises the \<^verbatim>\<open>ValueError\<close> of the leaf sets exactly when the set
  of tip names of the comparison tree differs from that of the master tree, and a call
  that raises it leaves the master tree as it was.
\<close>

theorem compare_leaf_set_mismatch:
  "(snd (compare master subsampled_tree) = Some (ValueError mismatch_msg) \<longleftrightarrow>
      set (getTipNames subsampled_tree) \<noteq> set (getTipNames master)) \<and>
   (snd (compare master subsampled_tree) = Some (ValueError mismatch_msg) \<longrightarrow>
      fst (compare master subsampled_tree) = master)"
proof (cases "set (getTipNames master) = set (getTipNames subsampled_tree)")
  case True
  have "snd (compare master subsampled_tree) \<noteq> Some (ValueError mismatch_msg)"
    using compare_loop_snd
      [of "map (\<lambda>p. getTipNames (node_at subsampled_tree p)) (iterNontips subsampled_tree)"
          "iterNontips master" master]
    by (auto simp: compare_match_eq [OF True])
  with True show ?thesis by simp
next
  case False
  then show ?thesis by (auto simp: compare_mismatch)
qed

text \<open>
  The master tree of the scenario against \<^verbatim>\<open>((A,B),(C,E));\<close>, which raises, and against
  \<^verbatim>\<open>((A,B),(C,D));\<close>, which does not.
\<close>

theorem compare_leaf_set_mismatch_witness:
  "set (getTipNames ex_tree_E) \<noteq> set (getTipNames ex_master) \<and>
   snd (compare ex_master ex_tree_E) = Some (ValueError mismatch_msg) \<and>
   fst (compare ex_master ex_tree_E) = ex_master \<and>
   set (getTipNames ex_tree1) = set (getTipNames ex_master) \<and>
   snd (compare ex_master ex_tree1) \<noteq> Some (ValueError mismatch_msg)"
proof -
  have h: "set (getTipNames ex_tree_E) \<noteq> set (getTipNames ex_master)" by code_simp
  have k: "set (getTipNames ex_tree1) = set (getTipNames ex_master)" by code_simp
  from compare_leaf_set_mismatch [of ex_master ex_tree_E] h
  have a: "snd (compare ex_master ex_tree_E) = Some (ValueError mismatch_msg)"
    and b: "fst (compare ex_master ex_tree_E) = ex_master"
    by blast+
  from compare_leaf_set_mismatch [of ex_master ex_tree1] k
  have c: "snd (compare ex_master ex_tree1) \<noteq> Some (ValueError mismatch_msg)"
    by blast
  from h a b k c show ?thesis by blast
qed

section \<open>The errors of setup_master_tree and of bootstrap_support\<close>

text \<open>
  Claim C6. \<^verbatim>\<open>setup_master_tree\<close> raises its \<^verbatim>\<open>ValueError\<close> exactly when, after the names
  are assigned, two different nodes of the master tree (tips or internal nodes) have the
  same \<^verbatim>\<open>Name\<close>; it raises nothing else. When it raises, \<^verbatim>\<open>bootstrap_support\<close> ends with
  that error and the tree as \<^verbatim>\<open>setup_master_tree\<close> left it, whatever the comparison trees
  are: no tree is compared. (The names are compared as Python compares them: a tip with
  no name has the name \<^verbatim>\<open>None\<close>, which two such tips share.)
\<close>

theorem setup_master_tree_nonunique:
  "(snd (setup_master_tree master) = Some (ValueError nonunique_msg) \<longleftrightarrow>
      (\<exists>p \<in> set (paths (fst (setup_master_tree master))).
       \<exists>q \<in> set (paths (fst (setup_master_tree master))).
          p \<noteq> q \<and>
          Name (node_at (fst (setup_master_tree master)) p) =
          Name (node_at (fst (setup_master_tree master)) q))) \<and>
   (snd (setup_master_tree master) \<noteq> None \<longrightarrow>
      snd (setup_master_tree master) = Some (ValueError nonunique_msg) \<and>
      bootstrap_support master trees =
        (fst (setup_master_tree master), Inl (ValueError nonunique_msg)))"
proof -
  define M' where "M' = fst (setup_master_tree master)"
  define dup where "dup \<longleftrightarrow> (\<exists>p \<in> set (paths M'). \<exists>q \<in> set (paths M').
      p \<noteq> q \<and> Name (node_at M' p) = Name (node_at M' q))"
  have r: "snd (setup_master_tree master) = (if dup then Some (ValueError nonunique_msg) else None)"
    unfolding dup_def M'_def nonunique_iff [symmetric] by (rule snd_setup_master_tree)
  have a: "snd (setup_master_tree master) = Some (ValueError nonunique_msg) \<longleftrightarrow> dup"
    by (simp add: r)
  have b: "bootstrap_support master trees = (M', Inl (ValueError nonunique_msg))"
    if "snd (setup_master_tree master) \<noteq> None"
  proof -
    from that have "snd (setup_master_tree master) = Some (ValueError nonunique_msg)"
      by (simp add: r split: if_splits)
    then show ?thesis unfolding M'_def by (rule bootstrap_support_setup_error)
  qed
  have c: "snd (setup_master_tree master) = Some (ValueError nonunique_msg)"
    if "snd (setup_master_tree master) \<noteq> None"
    using that by (simp add: r split: if_splits)
  from a b c show ?thesis
    unfolding dup_def M'_def by blast
qed

text \<open>
  In \<^verbatim>\<open>((A,B)node0,C);\<close> the root is named \<^verbatim>\<open>node0\<close>, the name of its first child.
\<close>

theorem setup_master_tree_nonunique_witness:
  "[] \<in> set (paths (fst (setup_master_tree ex_clash))) \<and>
   [0] \<in> set (paths (fst (setup_master_tree ex_clash))) \<and>
   Name (node_at (fst (setup_master_tree ex_clash)) []) = Some ''node0'' \<and>
   Name (node_at (fst (setup_master_tree ex_clash)) [0]) = Some ''node0'' \<and>
   snd (setup_master_tree ex_clash) = Some (ValueError nonunique_msg) \<and>
   bootstrap_support ex_clash [ex_tree1] =
     (fst (setup_master_tree ex_clash), Inl (ValueError nonunique_msg))"
proof -
  define M' where "M' = fst (setup_master_tree ex_clash)"
  have p: "[] \<in> set (paths M')" by simp
  have q: "[0] \<in> set (paths M')" unfolding M'_def by code_simp
  have n1: "Name (node_at M' []) = Some ''node0''" unfolding M'_def by code_simp
  have n2: "Name (node_at M' [0]) = Some ''node0''" unfolding M'_def by code_simp
  have ne: "([]::nat list) \<noteq> [0]" by simp
  have dup: "\<exists>p \<in> set (paths M'). \<exists>q \<in> set (paths M').
      p \<noteq> q \<and> Name (node_at M' p) = Name (node_at M' q)"
    using p q ne n1 n2 by (intro bexI [of _ "[]"] bexI [of _ "[0]"]) simp_all
  note T = setup_master_tree_nonunique [of ex_clash "[ex_tree1]", folded M'_def]
  have s: "snd (setup_master_tree ex_clash) = Some (ValueError nonunique_msg)"
    using T [THEN conjunct1, THEN iffD2, OF dup] .
  then have "snd (setup_master_tree ex_clash) \<noteq> None" by simp
  then have b: "bootstrap_support ex_clash [ex_tree1] = (M', Inl (ValueError nonunique_msg))"
    using T [THEN conjunct2] by (rule mp [THEN conjunct2, rotated])
  from p q n1 n2 s b show ?thesis unfolding M'_def by (intro conjI)
qed

text \<open>
  Claim C7 as stated fails. For a master tree that is one tip, the last loop of
  \<^verbatim>\<open>bootstrap_support\<close> has no node to divide at: with no comparison tree the call returns
  the empty dictionary and raises nothing.
\<close>

theorem empty_collection_counterexample:
  "setup_master_tree ex_single_tip = (ex_single_tip, None) \<and>
   bootstrap_support ex_single_tip [] = (ex_single_tip, Inr Map.empty)"
  by (simp add: bootstrap_support_def setup_master_tree_def iterNontips_def
      ex_single_tip_def tip_def)

text \<open>
  Claim C7, amended. With no comparison tree and a master tree whose root is an internal
  node, \<^verbatim>\<open>bootstrap_support\<close> returns no dictionary: it ends with the error of
  \<^verbatim>\<open>setup_master_tree\<close> if that raised, and otherwise with the \<^verbatim>\<open>ZeroDivisionError\<close> of the
  division by \<^verbatim>\<open>num_trees = 0\<close>, the tree being as \<^verbatim>\<open>setup_master_tree\<close> left it.
\<close>

theorem empty_collection_error:
  assumes "Children master \<noteq> []"
  shows "bootstrap_support master [] =
    (fst (setup_master_tree master),
     Inl (case snd (setup_master_tree master) of Some e \<Rightarrow> e | None \<Rightarrow> ZeroDivisionError))"
proof (cases "snd (setup_master_tree master)")
  case None
  have "iterNontips master \<noteq> []"
    using root_iterNontips [OF assms] by auto
  then show ?thesis
    using bootstrap_support_empty [OF None] None by simp
next
  case (Some e)
  then show ?thesis
    using bootstrap_support_setup_error [OF Some, of "[]"] by simp
qed

text \<open>
  The master tree of the scenario, with no comparison tree.
\<close>

theorem empty_collection_error_witness:
  "Children ex_master \<noteq> [] \<and> snd (setup_master_tree ex_master) = None \<and>
   bootstrap_support ex_master [] = (fst (setup_master_tree ex_master), Inl ZeroDivisionError)"
proof -
  have c: "Children ex_master \<noteq> []" by code_simp
  have s: "snd (setup_master_tree ex_master) = None" by code_simp
  from empty_collection_error [OF c] s c show ?thesis by simp
qed

text \<open>
  Claim C8 as stated fails. Against the master tree with leaves A, B, C, D, the trees with
  leaves A, B, C, E and A, B, C, F raise one and the same error value, although the
  labels only they have differ (E, F): the error does not identify them.
\<close>

theorem mismatch_error_counterexample:
  "set (getTipNames ex_master) - set (getTipNames ex_tree_E) = {Some ''D''} \<and>
   set (getTipNames ex_tree_E) - set (getTipNames ex_master) = {Some ''E''} \<and>
   set (getTipNames ex_tree_F) - set (getTipNames ex_master) = {Some ''F''} \<and>
   snd (compare ex_master ex_tree_E) = Some (ValueError mismatch_msg) \<and>
   snd (compare ex_master ex_tree_F) = snd (compare ex_master ex_tree_E)"
  by code_simp

text \<open>
  Claim C8, amended. When the leaf-label sets differ, \<^verbatim>\<open>compare\<close> raises a \<^verbatim>\<open>ValueError\<close>
  whose message is a fixed text, the same for all trees, and leaves the master tree
  unchanged; the differing labels are not part of the error.
\<close>

theorem mismatch_error_fixed_message:
  assumes "set (getTipNames subsampled_tree) \<noteq> set (getTipNames master)"
  shows "compare master subsampled_tree = (master, Some (ValueError mismatch_msg))"
  using assms by (simp add: compare_def)

text \<open>
  The master tree of the scenario against \<^verbatim>\<open>((A,B),(C,E));\<close>.
\<close>

theorem mismatch_error_fixed_message_witness:
  "set (getTipNames ex_tree_E) \<noteq> set (getTipNames ex_master) \<and>
   compare ex_master ex_tree_E = (ex_master, Some (ValueError mismatch_msg))"
proof -
  have h: "set (getTipNames ex_tree_E) \<noteq> set (getTipNames ex_master)" by code_simp
  from mismatch_error_fixed_message [OF h] h show ?thesis by simp
qed

section \<open>The counters during the comparisons\<close>

text \<open>
  Claim C9. For an internal node of the master tree, at position \<open>p\<close>: after
  \<^verbatim>\<open>setup_master_tree\<close> its counter is 0; in the state reached after any list \<open>ts\<close> of
  comparison trees, one more call of \<^verbatim>\<open>compare\<close> adds exactly 1 to the counter when the
  tree has the leaf set of the master and a node with the clade of \<open>p\<close>, and leaves it as
  it is otherwise; and after the trees \<open>ts\<close> the counter is a natural number that is at most
  the number of trees.
\<close>

theorem support_accumulator_counts:
  assumes p: "p \<in> set (iterNontips master)"
  shows "support (node_at (fst (setup_master_tree master)) p) = Some 0 \<and>
    (\<exists>b. support (node_at (fst (compare_all (fst (setup_master_tree master)) ts)) p) = Some b \<and>
         support (node_at (fst (compare (fst (compare_all (fst (setup_master_tree master)) ts)) t)) p) =
           Some (if set (getTipNames t) = set (getTipNames master) \<and> supported_by master p t
                 then b + 1 else b)) \<and>
    (\<exists>k \<le> length ts.
       support (node_at (fst (compare_all (fst (setup_master_tree master)) ts)) p) =
         Some (of_nat k))"
proof -
  define m0 where "m0 = fst (setup_master_tree master)"
  define m where "m = fst (compare_all m0 ts)"
  have s0: "skel m0 = skel master" unfolding m0_def by (rule setup_skel)
  have i0: "initialised m0" unfolding m0_def by (rule setup_initialised)
  have p0: "p \<in> set (iterNontips m0)" using p skel_iterNontips [OF s0] by simp
  have z: "support (node_at m0 p) = Some 0" unfolding m0_def using p by (rule setup_support)
  have s: "skel m = skel m0" unfolding m_def by (rule compare_all_skel)
  have sm: "skel m = skel master" using s s0 by simp
  have i: "initialised m" unfolding m_def using i0 by (rule compare_all_initialised)
  have pm: "p \<in> set (iterNontips m)" using p skel_iterNontips [OF sm] by simp
  have pp: "p \<in> set (paths master)" using p iterNontips_subset by auto
  obtain b where b: "support (node_at m p) = Some b"
    using initialisedD [OF i pm] by blast
  have tips: "set (getTipNames m) = set (getTipNames master)"
    using sm by (rule skel_tips_set)
  have sb: "supported_by m p t = supported_by master p t"
    using sm pp by (rule skel_supported_by)
  have step: "support (node_at (fst (compare m t)) p) =
      Some (if set (getTipNames t) = set (getTipNames master) \<and> supported_by master p t
            then b + 1 else b)"
    using compare_support [OF i pm, of t] b by (auto simp: tips sb)
  from compare_all_bound [OF i0 p0, of ts] obtain k where
    k: "k \<le> length ts" "support (node_at m p) = Some (of_nat k)"
    unfolding m_def [symmetric] by (auto simp: z)
  from z b step k show ?thesis
    unfolding m_def m0_def by blast
qed

text \<open>
  Node \<^verbatim>\<open>n1\<close> of the scenario, at position \<open>[0]\<close>: 0 after the setup and 1 after the two
  comparison trees.
\<close>

theorem support_accumulator_counts_witness:
  "[0] \<in> set (iterNontips ex_master) \<and>
   support (node_at (fst (setup_master_tree ex_master)) [0]) = Some 0 \<and>
   support (node_at (fst (compare_all (fst (setup_master_tree ex_master)) [ex_tree1, ex_tree2])) [0])
     = Some 1 \<and>
   (\<exists>k \<le> length [ex_tree1, ex_tree2].
     support (node_at (fst (compare_all (fst (setup_master_tree ex_master)) [ex_tree1, ex_tree2])) [0])
       = Some (of_nat k))"
proof -
  have p: "[0] \<in> set (iterNontips ex_master)" by code_simp
  have v: "support (node_at (fst (compare_all (fst (setup_master_tree ex_master))
      [ex_tree1, ex_tree2])) [0]) = Some 1"
    by code_simp
  note T = support_accumulator_counts [OF p, of "[ex_tree1, ex_tree2]" ex_tree1]
  from p T [THEN conjunct1] v T [THEN conjunct2, THEN conjunct2]
  show ?thesis by (intro conjI)
qed

text \<open>
  Claim C10. When \<^verbatim>\<open>setup_master_tree\<close> succeeds, the trees \<open>ts\<close> have the leaf set of the
  master and the next tree \<open>t'\<close> has not, \<^verbatim>\<open>bootstrap_support\<close> ends with the \<^verbatim>\<open>ValueError\<close>
  of \<^verbatim>\<open>compare\<close>, and the master tree is left in the state it had after the trees \<open>ts\<close>:
  every internal node's counter is the number of trees of \<open>ts\<close> that support it. Nothing
  is rolled back, and the trees after \<open>t'\<close> are not looked at.
\<close>

theorem mismatch_keeps_increments:
  assumes ok: "snd (setup_master_tree master) = None"
    and good: "\<forall>t \<in> set ts. set (getTipNames t) = set (getTipNames master)"
    and bad: "set (getTipNames t') \<noteq> set (getTipNames master)"
  shows "snd (bootstrap_support master (ts @ t' # rest)) = Inl (ValueError mismatch_msg) \<and>
    fst (bootstrap_support master (ts @ t' # rest)) =
      fst (compare_all (fst (setup_master_tree master)) ts) \<and>
    (\<forall>p \<in> set (iterNontips master).
       support (node_at (fst (bootstrap_support master (ts @ t' # rest))) p) =
         Some (of_nat (length (filter (supported_by master p) ts))))"
proof -
  define m0 where "m0 = fst (setup_master_tree master)"
  define m where "m = fst (compare_all m0 ts)"
  have s0: "skel m0 = skel master" unfolding m0_def by (rule setup_skel)
  have i0: "initialised m0" unfolding m0_def by (rule setup_initialised)
  have good0: "\<forall>t \<in> set ts. set (getTipNames t) = set (getTipNames m0)"
    using good skel_tips_set [OF s0] by simp
  note ca = compare_all_counts [OF i0 good0]
  have c1: "compare_all m0 ts = (m, None)"
    using ca by (cases "compare_all m0 ts") (simp add: m_def)
  have s: "skel m = skel m0" unfolding m_def by (rule compare_all_skel)
  have "set (getTipNames m) = set (getTipNames master)"
    using skel_tips_set [OF s] skel_tips_set [OF s0] by simp
  with bad have "set (getTipNames m) \<noteq> set (getTipNames t')" by auto
  then have c2: "compare m t' = (m, Some (ValueError mismatch_msg))"
    by (rule compare_mismatch)
  have "compare_all m0 (ts @ t' # rest) = (m, Some (ValueError mismatch_msg))"
    by (simp add: compare_all_append c1 c2)
  then have r: "bootstrap_support master (ts @ t' # rest) = (m, Inl (ValueError mismatch_msg))"
    by (simp add: bootstrap_support_after_setup [OF ok] m0_def [symmetric])
  have "support (node_at m p) = Some (of_nat (length (filter (supported_by master p) ts)))"
    if p: "p \<in> set (iterNontips master)" for p
  proof -
    have p0: "p \<in> set (iterNontips m0)" using p skel_iterNontips [OF s0] by simp
    have pp: "p \<in> set (paths master)" using p iterNontips_subset by auto
    have z: "support (node_at m0 p) = Some 0" unfolding m0_def using p by (rule setup_support)
    have sb: "supported_by m0 p = supported_by master p"
      by (rule ext) (rule skel_supported_by [OF s0 pp])
    from ca p0 have "support (node_at m p) =
        map_option (\<lambda>b. b + of_nat (length (filter (supported_by m0 p) ts)))
          (support (node_at m0 p))"
      unfolding m_def by blast
    then show ?thesis by (simp add: z sb)
  qed
  with r show ?thesis
    unfolding m_def m0_def by simp
qed

text \<open>
  The scenario with \<^verbatim>\<open>((A,B),(C,E));\<close> put between its two comparison trees: the call ends
  with the error, and node \<^verbatim>\<open>n1\<close> keeps the 1 it got from the first tree.
\<close>

theorem mismatch_keeps_increments_witness:
  "snd (setup_master_tree ex_master) = None \<and>
   set (getTipNames ex_tree1) = set (getTipNames ex_master) \<and>
   set (getTipNames ex_tree_E) \<noteq> set (getTipNames ex_master) \<and>
   [0] \<in> set (iterNontips ex_master) \<and>
   snd (bootstrap_support ex_master [ex_tree1, ex_tree_E, ex_tree2]) =
     Inl (ValueError mismatch_msg) \<and>
   support (node_at (fst (bootstrap_support ex_master [ex_tree1, ex_tree_E, ex_tree2])) [0]) =
     Some 1"
proof -
  have ok: "snd (setup_master_tree ex_master) = None" by code_simp
  have h1: "set (getTipNames ex_tree1) = set (getTipNames ex_master)" by code_simp
  have good: "\<forall>t \<in> set [ex_tree1]. set (getTipNames t) = set (getTipNames ex_master)"
    using h1 by simp
  have bad: "set (getTipNames ex_tree_E) \<noteq> set (getTipNames ex_master)" by code_simp
  have p: "[0] \<in> set (iterNontips ex_master)" by code_simp
  have n: "length (filter (supported_by ex_master [0]) [ex_tree1]) = 1" by code_simp
  note T = mismatch_keeps_increments [OF ok good bad, of "[ex_tree2]", simplified append.simps]
  have a: "snd (bootstrap_support ex_master [ex_tree1, ex_tree_E, ex_tree2]) =
     Inl (ValueError mismatch_msg)"
    using T [THEN conjunct1] .
  have "support (node_at (fst (bootstrap_support ex_master [ex_tree1, ex_tree_E, ex_tree2])) [0]) =
     Some (of_nat (length (filter (supported_by ex_master [0]) [ex_tree1])))"
    using T [THEN conjunct2, THEN conjunct2] p by (rule bspec)
  then have b: "support (node_at (fst (bootstrap_support ex_master
      [ex_tree1, ex_tree_E, ex_tree2])) [0]) = Some 1"
    by (simp only: n of_nat_1)
  from ok h1 bad p a b show ?thesis by (intro conjI)
qed

end
